theory Spec2Isabelle
  imports Main "HOL-Library.Char_ord" "HOL-Library.List_Lexorder" "HOL-Library.Multiset"
    "HOL-Library.Sublist"
begin

section \<open>Values and text\<close>

text \<open>
  The program is Python 2: a \<open>str\<close> is a sequence of bytes (here \<open>string\<close>, a list of
  8-bit characters) and a \<open>unicode\<close> object is a sequence of code points (here a list of
  naturals). The values that travel between the CSV files and the database are \<open>None\<close>,
  booleans, integers and unicode text.
\<close>

type_synonym bytes = string
type_synonym unicode = "nat list"

datatype pyval = PNone | PBool bool | PInt int | PText unicode

text \<open>Python truthiness, as used by \<open>if _\<close> in a comprehension.\<close>

fun truthy :: "pyval \<Rightarrow> bool" where
  "truthy PNone = False"
| "truthy (PBool b) = b"
| "truthy (PInt i) = (i \<noteq> 0)"
| "truthy (PText u) = (u \<noteq> [])"

text \<open>
  Python compares and hashes \<open>True\<close> like \<open>1\<close> and \<open>False\<close> like \<open>0\<close>; \<open>py_key\<close> picks
  one representative, so that \<open>a == b\<close> in Python is \<open>py_key a = py_key b\<close> here.
\<close>

fun py_key :: "pyval \<Rightarrow> pyval" where
  "py_key (PBool b) = PInt (if b then 1 else 0)"
| "py_key v = v"

definition py_eq :: "pyval \<Rightarrow> pyval \<Rightarrow> bool" where
  "py_eq a b = (py_key a = py_key b)"

subsection \<open>The UTF-8 codec of the Python library\<close>

text \<open>
  \<open>unicode.encode('utf-8')\<close> and \<open>str.decode('utf-8')\<close> are library functions; they are
  modelled on code points below \<open>0x110000\<close>. The decoder is the usual state machine: the
  number of continuation bytes still expected, the value collected so far and the least
  value the sequence may denote (shorter encodings of the same value are rejected).
\<close>

definition byte :: "nat \<Rightarrow> char" where
  "byte n = char_of n"

definition utf8_encode_cp :: "nat \<Rightarrow> bytes" where
  "utf8_encode_cp c =
     (if c < 0x80 then [byte c]
      else if c < 0x800 then [byte (0xC0 + c div 0x40), byte (0x80 + c mod 0x40)]
      else if c < 0x10000 then
        [byte (0xE0 + c div 0x1000), byte (0x80 + c div 0x40 mod 0x40),
         byte (0x80 + c mod 0x40)]
      else
        [byte (0xF0 + c div 0x40000), byte (0x80 + c div 0x1000 mod 0x40),
         byte (0x80 + c div 0x40 mod 0x40), byte (0x80 + c mod 0x40)])"

definition utf8_encode :: "unicode \<Rightarrow> bytes" where
  "utf8_encode u = concat (map utf8_encode_cp u)"

fun utf8_dec :: "nat \<Rightarrow> nat \<Rightarrow> nat \<Rightarrow> bytes \<Rightarrow> unicode option" where
  "utf8_dec 0 acc lo [] = Some []"
| "utf8_dec (Suc k) acc lo [] = None"
| "utf8_dec 0 acc lo (b # bs) =
     (let n = (of_char b :: nat) in
      if n < 0x80 then map_option ((#) n) (utf8_dec 0 0 0 bs)
      else if n < 0xC0 then None
      else if n < 0xE0 then utf8_dec 1 (n - 0xC0) 0x80 bs
      else if n < 0xF0 then utf8_dec 2 (n - 0xE0) 0x800 bs
      else if n < 0xF8 then utf8_dec 3 (n - 0xF0) 0x10000 bs
      else None)"
| "utf8_dec (Suc k) acc lo (b # bs) =
     (let n = (of_char b :: nat) in
      if 0x80 \<le> n \<and> n < 0xC0 then
        (let acc' = acc * 0x40 + (n - 0x80) in
         if k = 0 then
           (if lo \<le> acc' \<and> acc' < 0x110000
            then map_option ((#) acc') (utf8_dec 0 0 0 bs) else None)
         else utf8_dec k acc' lo bs)
      else None)"

definition utf8_decode :: "bytes \<Rightarrow> unicode option" where
  "utf8_decode bs = utf8_dec 0 0 0 bs"

text \<open>Text whose code points the UTF-8 codec covers.\<close>

definition valid_text :: "unicode \<Rightarrow> bool" where
  "valid_text u = list_all (\<lambda>c. c < 0x110000) u"

subsection \<open>Decimal text of an integer\<close>

text \<open>\<open>unicode(val)\<close> of an integer is its decimal text.\<close>

definition digit :: "nat \<Rightarrow> nat" where
  "digit d = 48 + d"

function show_nat :: "nat \<Rightarrow> unicode" where
  "show_nat n = (if n < 10 then [digit n] else show_nat (n div 10) @ [digit (n mod 10)])"
  by pat_completeness auto
termination
  by (relation "measure id") auto

declare show_nat.simps [simp del]

definition show_int :: "int \<Rightarrow> unicode" where
  "show_int i = (if i < 0 then 45 # show_nat (nat (- i)) else show_nat (nat i))"

section \<open>The schema\<close>

text \<open>
  What the program reads from a SQLAlchemy \<open>Table\<close>: its name and its columns; of a
  column its name, whether it is nullable, whether its type is \<open>Boolean\<close>, the tables its
  foreign keys point at, and whether it belongs to the primary key.
\<close>

record column =
  col_name :: string
  nullable :: bool
  is_boolean :: bool
  foreign_keys :: "string list"
  primary_key :: bool

record table_obj =
  tbl_name :: string
  tbl_columns :: "column list"

text \<open>\<open>table_obj.c[column_name]\<close>: the column of that name, \<open>KeyError\<close> when there is none.\<close>

definition lookup_column :: "table_obj \<Rightarrow> string \<Rightarrow> column option" where
  "lookup_column t cn = find (\<lambda>c. col_name c = cn) (tbl_columns t)"

section \<open>The value codec\<close>

datatype error =
    KeyError string
  | NameError string
  | ValueError string
  | UnicodeDecodeError
  | StopIteration
  | RegexError

text \<open>Load direction: the body of the loop over \<open>zip(column_names, csvs)\<close> in \<open>load\<close>.\<close>

definition decode_value :: "column \<Rightarrow> bytes \<Rightarrow> error + pyval" where
  "decode_value col v =
     (if nullable col \<and> v = [] then Inr PNone
      else if is_boolean col then (if v = ''0'' then Inr (PBool False) else Inr (PBool True))
      else (case utf8_decode v of
              None \<Rightarrow> Inl UnicodeDecodeError
            | Some u \<Rightarrow> Inr (PText u)))"

text \<open>
  Dump direction: the body of the loop over \<open>columns\<close> in \<open>dump\<close>. The tests
  \<open>val == True\<close> and \<open>val == False\<close> also hold of the integers 1 and 0.
\<close>

definition py_unicode :: "pyval \<Rightarrow> unicode" where
  "py_unicode v =
     (case v of
        PNone \<Rightarrow> map of_char ''None''
      | PBool b \<Rightarrow> map of_char (if b then ''True'' else ''False'')
      | PInt i \<Rightarrow> show_int i
      | PText u \<Rightarrow> u)"

definition encode_value :: "pyval \<Rightarrow> bytes" where
  "encode_value val =
     (if val = PNone then []
      else if py_eq val (PBool True) then ''1''
      else if py_eq val (PBool False) then ''0''
      else utf8_encode (py_unicode val))"

section \<open>The session, standard output and the files\<close>

text \<open>
  A record being loaded is a Python dictionary from column name to value. The database is
  seen through the calls the program makes on it, in order (\<open>trace\<close>); \<open>stdout\<close> holds what
  was printed and \<open>opened\<close> the paths given to \<open>open\<close>, both in order.
\<close>

type_synonym row_data = "string \<rightharpoonup> pyval"

datatype event =
    Drop string
  | Create string
  | Execute_many string "row_data list"
  | Execute_one string row_data
  | Commit

record session =
  trace :: "event list"
  stdout :: "string list"
  opened :: "string list"

text \<open>A CSV file as the \<open>csv\<close> module reads or writes it: a list of lines, each a list of fields.\<close>

type_synonym csv_file = "bytes list list"
type_synonym files = "string \<rightharpoonup> csv_file"

definition csv_path :: "string \<Rightarrow> string \<Rightarrow> string" where
  "csv_path directory table_name = directory @ ''/'' @ table_name @ ''.csv''"

subsection \<open>\<open>_get_verbose_prints\<close>\<close>

definition print_start :: "bool \<Rightarrow> string \<Rightarrow> session \<Rightarrow> session" where
  "print_start verbose thing s =
     (if verbose then
        (let truncated_thing = take 66 thing;
             num_spaces = 66 - length truncated_thing
         in s\<lparr>stdout := stdout s @ [truncated_thing @ ''...'' @ replicate num_spaces CHR '' '']\<rparr>)
      else s)"

definition print_done :: "bool \<Rightarrow> string \<Rightarrow> session \<Rightarrow> session" where
  "print_done verbose msg s = (if verbose then s\<lparr>stdout := stdout s @ [msg]\<rparr> else s)"

section \<open>Loading one table\<close>

text \<open>
  The variables of the loop over the lines of one file: the session, the batch
  \<open>new_rows\<close>, the dictionary \<open>seen_ids\<close> (only its keys matter) and \<open>deferred_rows\<close>.
\<close>

record load_state =
  sess :: session
  new_rows :: "row_data list"
  seen_ids :: "pyval set"
  deferred_rows :: "(row_data \<times> pyval list) list"

type_synonym 'a outcome = "(error \<times> 'a) + 'a"

definition batch_size :: nat where
  "batch_size = 1000"

definition insert_and_commit :: "string \<Rightarrow> load_state \<Rightarrow> load_state" where
  "insert_and_commit table_name st =
     st\<lparr>sess := (sess st)\<lparr>trace := trace (sess st) @ [Execute_many table_name (new_rows st), Commit]\<rparr>,
        new_rows := []\<rparr>"

text \<open>Columns with a foreign key that points at the table itself.\<close>

definition self_ref_columns :: "table_obj \<Rightarrow> column list" where
  "self_ref_columns t = filter (\<lambda>c. list_ex (\<lambda>fk. fk = tbl_name t) (foreign_keys c)) (tbl_columns t)"

text \<open>\<open>unicode(column)\<close> on a byte string decodes it as ASCII.\<close>

definition is_ascii :: "bytes \<Rightarrow> bool" where
  "is_ascii s = list_all (\<lambda>c. (of_char c :: nat) < 128) s"

fun header_names :: "bytes list \<Rightarrow> error + string list" where
  "header_names [] = Inr []"
| "header_names (column # rest) =
     (if is_ascii column then
        (case header_names rest of Inl e \<Rightarrow> Inl e | Inr names \<Rightarrow> Inr (column # names))
      else Inl UnicodeDecodeError)"

text \<open>
  The loop over \<open>zip(column_names, csvs)\<close> that fills \<open>row_data\<close>, which starts as the
  empty dictionary for every line.
\<close>

fun build_row_data :: "table_obj \<Rightarrow> (string \<times> bytes) list \<Rightarrow> row_data \<Rightarrow> error + row_data" where
  "build_row_data t [] row_data = Inr row_data"
| "build_row_data t ((column_name, v) # rest) row_data =
     (case lookup_column t column_name of
        None \<Rightarrow> Inl (KeyError column_name)
      | Some col \<Rightarrow>
          (case decode_value col v of
             Inl e \<Rightarrow> Inl e
           | Inr val \<Rightarrow> build_row_data t rest (row_data(column_name \<mapsto> val))))"

definition decode_line :: "table_obj \<Rightarrow> string list \<Rightarrow> bytes list \<Rightarrow> error + row_data" where
  "decode_line t column_names csvs = build_row_data t (zip column_names csvs) Map.empty"

text \<open>\<open>[row_data[_.name] for _ in self_ref_columns]\<close>\<close>

fun lookup_all :: "row_data \<Rightarrow> string list \<Rightarrow> error + pyval list" where
  "lookup_all row_data [] = Inr []"
| "lookup_all row_data (n # ns) =
     (case row_data n of
        None \<Rightarrow> Inl (KeyError n)
      | Some v \<Rightarrow> (case lookup_all row_data ns of Inl e \<Rightarrow> Inl e | Inr vs \<Rightarrow> Inr (v # vs)))"

text \<open>\<open>all(_ in seen_ids for _ in foreign_ids)\<close>\<close>

definition all_seen :: "pyval set \<Rightarrow> pyval list \<Rightarrow> bool" where
  "all_seen seen foreign_ids = list_all (\<lambda>f. py_key f \<in> seen) foreign_ids"

text \<open>\<open>seen_ids[row_data['id']] = 1\<close>\<close>

definition mark_seen :: "row_data \<Rightarrow> load_state \<Rightarrow> load_state outcome" where
  "mark_seen row_data st =
     (case row_data ''id'' of
        None \<Rightarrow> Inl (KeyError ''id'', st)
      | Some i \<Rightarrow> Inr (st\<lparr>seen_ids := insert (py_key i) (seen_ids st)\<rparr>))"

text \<open>\<open>new_rows.append(row_data)\<close> and the commit every 1000 rows.\<close>

definition append_row :: "string \<Rightarrow> row_data \<Rightarrow> load_state \<Rightarrow> load_state" where
  "append_row table_name row_data st =
     (let st' = st\<lparr>new_rows := new_rows st @ [row_data]\<rparr>
      in if length (new_rows st') \<ge> batch_size then insert_and_commit table_name st' else st')"

text \<open>What the loop body does with a record once it is decoded.\<close>

definition resolve_row :: "table_obj \<Rightarrow> row_data \<Rightarrow> load_state \<Rightarrow> load_state outcome" where
  "resolve_row t row_data st =
     (if self_ref_columns t \<noteq> [] then
        (case lookup_all row_data (map col_name (self_ref_columns t)) of
           Inl e \<Rightarrow> Inl (e, st)
         | Inr all_ids \<Rightarrow>
             (let foreign_ids = filter truthy all_ids in
              if foreign_ids = [] then
                (case mark_seen row_data st of
                   Inl x \<Rightarrow> Inl x
                 | Inr st1 \<Rightarrow> Inr (append_row (tbl_name t) row_data st1))
              else if all_seen (seen_ids st) foreign_ids then
                (case mark_seen row_data (insert_and_commit (tbl_name t) st) of
                   Inl x \<Rightarrow> Inl x
                 | Inr st1 \<Rightarrow> Inr (append_row (tbl_name t) row_data st1))
              else Inr (st\<lparr>deferred_rows := deferred_rows st @ [(row_data, foreign_ids)]\<rparr>)))
      else Inr (append_row (tbl_name t) row_data st))"

text \<open>The body of \<open>for csvs in reader\<close>.\<close>

definition process_row :: "table_obj \<Rightarrow> string list \<Rightarrow> bytes list \<Rightarrow> load_state \<Rightarrow> load_state outcome" where
  "process_row t column_names csvs st =
     (case decode_line t column_names csvs of
        Inl e \<Rightarrow> Inl (e, st)
      | Inr row_data \<Rightarrow> resolve_row t row_data st)"

fun load_rows :: "table_obj \<Rightarrow> string list \<Rightarrow> bytes list list \<Rightarrow> load_state \<Rightarrow> load_state outcome" where
  "load_rows t column_names [] st = Inr st"
| "load_rows t column_names (csvs # rest) st =
     (case process_row t column_names csvs st of
        Inl x \<Rightarrow> Inl x
      | Inr st' \<Rightarrow> load_rows t column_names rest st')"

text \<open>
  The loop over \<open>deferred_rows\<close>. Its \<open>raise\<close> builds the message from \<open>str(row)\<close>, and
  \<open>load\<close> binds no variable \<open>row\<close> (nor does the module): evaluating the message raises
  \<open>NameError\<close> before the \<open>ValueError\<close> exists.
\<close>

fun replay_deferred :: "string \<Rightarrow> (row_data \<times> pyval list) list \<Rightarrow> load_state \<Rightarrow> load_state outcome" where
  "replay_deferred table_name [] st = Inr st"
| "replay_deferred table_name ((row_data, foreign_ids) # rest) st =
     (if \<not> all_seen (seen_ids st) foreign_ids then Inl (NameError ''row'', st)
      else
        (let st1 = st\<lparr>sess := (sess st)\<lparr>trace := trace (sess st) @ [Execute_one table_name row_data]\<rparr>\<rparr>
         in case mark_seen row_data st1 of
              Inl x \<Rightarrow> Inl x
            | Inr st2 \<Rightarrow> replay_deferred table_name rest st2))"

definition commit :: "session \<Rightarrow> session" where
  "commit s = s\<lparr>trace := trace s @ [Commit]\<rparr>"

text \<open>Everything \<open>load\<close> does with an open file: from \<open>csv.reader\<close> to the last commit.\<close>

definition start_state :: "session \<Rightarrow> load_state" where
  "start_state s = \<lparr>sess = s, new_rows = [], seen_ids = {}, deferred_rows = []\<rparr>"

definition load_csv :: "table_obj \<Rightarrow> csv_file \<Rightarrow> session \<Rightarrow> load_state outcome" where
  "load_csv t lines s =
     (let st0 = start_state s in
      case lines of
        [] \<Rightarrow> Inl (StopIteration, st0)
      | header # rows \<Rightarrow>
          (case header_names header of
             Inl e \<Rightarrow> Inl (e, st0)
           | Inr column_names \<Rightarrow>
               (case load_rows t column_names rows st0 of
                  Inl x \<Rightarrow> Inl x
                | Inr st \<Rightarrow>
                    (let st1 = insert_and_commit (tbl_name t) st in
                     case replay_deferred (tbl_name t) (deferred_rows st1) st1 of
                       Inl x \<Rightarrow> Inl x
                     | Inr st2 \<Rightarrow> Inr (st2\<lparr>sess := commit (sess st2)\<rparr>)))))"

text \<open>The body of \<open>for table_obj in table_objs\<close>.\<close>

definition load_table :: "bool \<Rightarrow> files \<Rightarrow> string \<Rightarrow> table_obj \<Rightarrow> session \<Rightarrow> session outcome" where
  "load_table verbose fs directory t s =
     (let s0 = print_start verbose (tbl_name t) s;
          s1 = s0\<lparr>opened := opened s0 @ [csv_path directory (tbl_name t)]\<rparr> in
      case fs (csv_path directory (tbl_name t)) of
        None \<Rightarrow> Inr (print_done verbose ''missing?'' s1)
      | Some lines \<Rightarrow>
          (case load_csv t lines s1 of
             Inl (e, st) \<Rightarrow> Inl (e, sess st)
           | Inr st \<Rightarrow> Inr (print_done verbose ''ok'' (sess st))))"

fun load_tables :: "bool \<Rightarrow> files \<Rightarrow> string \<Rightarrow> table_obj list \<Rightarrow> session \<Rightarrow> session outcome" where
  "load_tables verbose fs directory [] s = Inr s"
| "load_tables verbose fs directory (t # ts) s =
     (case load_table verbose fs directory t s of
        Inl x \<Rightarrow> Inl x
      | Inr s' \<Rightarrow> load_tables verbose fs directory ts s')"

section \<open>Selecting tables by wildcard\<close>

subsection \<open>Library functions: \<open>re.escape\<close>, \<open>os.path.split\<close>, \<open>os.path.splitext\<close>\<close>

definition backslash :: char where
  "backslash = CHR 0x5C"

definition newline :: char where
  "newline = CHR 0x0A"

definition alphanum :: string where
  "alphanum = ''abcdefghijklmnopqrstuvwxyzABCDEFGHIJKLMNOPQRSTUVWXYZ0123456789''"

definition escape_char :: "char \<Rightarrow> string" where
  "escape_char c =
     (if c \<in> set alphanum then [c]
      else if c = CHR 0x00 then [backslash, CHR ''0'', CHR ''0'', CHR ''0'']
      else [backslash, c])"

definition re_escape :: "string \<Rightarrow> string" where
  "re_escape pattern = concat (map escape_char pattern)"

text \<open>\<open>s.rfind(c)\<close>: the index of the last occurrence of \<open>c\<close>, or \<open>-1\<close>.\<close>

fun rfind_from :: "char \<Rightarrow> string \<Rightarrow> int \<Rightarrow> int \<Rightarrow> int" where
  "rfind_from c [] i found = found"
| "rfind_from c (x # xs) i found = rfind_from c xs (i + 1) (if x = c then i else found)"

definition rfind :: "char \<Rightarrow> string \<Rightarrow> int" where
  "rfind c s = rfind_from c s 0 (- 1)"

text \<open>\<open>s.rstrip('/')\<close>\<close>

definition rstrip_slash :: "string \<Rightarrow> string" where
  "rstrip_slash s = rev (dropWhile (\<lambda>c. c = CHR ''/'') (rev s))"

text \<open>\<open>posixpath.split\<close>\<close>

definition path_split :: "string \<Rightarrow> string \<times> string" where
  "path_split p =
     (let i = nat (rfind CHR ''/'' p + 1);
          head = take i p;
          tail = drop i p
      in (if head \<noteq> [] \<and> head \<noteq> replicate (length head) CHR ''/'' then rstrip_slash head
          else head,
          tail))"

text \<open>
  \<open>posixpath.splitext\<close>: the extension starts at the last dot, unless that dot comes before
  the last slash or only dots stand between the last slash and it.
\<close>

definition path_splitext :: "string \<Rightarrow> string \<times> string" where
  "path_splitext p =
     (let sepIndex = rfind CHR ''/'' p;
          dotIndex = rfind CHR ''.'' p
      in if dotIndex > sepIndex \<and>
            list_ex (\<lambda>c. c \<noteq> CHR ''.'') (take (nat (dotIndex - (sepIndex + 1))) (drop (nat (sepIndex + 1)) p))
         then (take (nat dotIndex) p, drop (nat dotIndex) p)
         else (p, []))"

subsection \<open>From wildcards to a regular expression\<close>

definition wildcard_char_to_regex :: "char \<Rightarrow> string" where
  "wildcard_char_to_regex char =
     (if char = CHR ''?'' then ''.?''
      else if char = CHR ''*'' then ''.*''
      else re_escape [char])"

text \<open>The name a glob stands for: a glob that looks like a file name loses directory and extension.\<close>

definition glob_table_name :: "string \<Rightarrow> string" where
  "glob_table_name glob =
     (if CHR ''.'' \<in> set glob \<or> CHR ''/'' \<in> set glob then
        (let filename = snd (path_split glob);
             table_name = fst (path_splitext filename)
         in table_name)
      else glob)"

text \<open>
  \<open>u''.join(pieces)\<close>: the patterns are byte strings, as the command line gives them, and
  so are the pieces; the result is a unicode string, so Python decodes every piece as
  ASCII and a byte of 128 or more raises \<open>UnicodeDecodeError\<close>. The result holds ASCII
  characters only and is kept as a string.
\<close>

definition unicode_join :: "string list \<Rightarrow> error + string" where
  "unicode_join pieces =
     (if list_all is_ascii pieces then Inr (concat pieces) else Inl UnicodeDecodeError)"

definition wildcard_glob_to_regex :: "string \<Rightarrow> error + string" where
  "wildcard_glob_to_regex glob = unicode_join (map wildcard_char_to_regex (glob_table_name glob))"

text \<open>\<open>map(f, xs)\<close> for an \<open>f\<close> that may raise: the results, or the first error.\<close>

fun map_raising :: "('a \<Rightarrow> error + 'b) \<Rightarrow> 'a list \<Rightarrow> error + 'b list" where
  "map_raising f [] = Inr []"
| "map_raising f (x # xs) =
     (case f x of
        Inl e \<Rightarrow> Inl e
      | Inr y \<Rightarrow> (case map_raising f xs of Inl e \<Rightarrow> Inl e | Inr ys \<Rightarrow> Inr (y # ys)))"

text \<open>\<open>sep.join(parts)\<close>\<close>

fun join :: "string \<Rightarrow> string list \<Rightarrow> string" where
  "join sep [] = []"
| "join sep [x] = x"
| "join sep (x # y # ys) = x @ sep @ join sep (y # ys)"

text \<open>The string that \<open>_wildcards_to_regex\<close> hands to \<open>re.compile\<close>.\<close>

definition regex_string :: "string list \<Rightarrow> string" where
  "regex_string regex_parts = ''^(?:'' @ join ''|'' regex_parts @ '')$''"

subsection \<open>The regular expressions of the Python library\<close>

text \<open>
  \<open>re.compile\<close> and \<open>match\<close> are modelled on the expressions the program can build:
  \<open>^(?:A|...|A)$\<close>, each alternative a sequence of characters, escaped characters and dots,
  each optionally followed by \<open>*\<close> or \<open>?\<close>. Anything else is outside the model and compiles
  to \<open>None\<close>. A dot matches any character but a newline; \<open>$\<close> matches at the end of the
  string and just before a newline that ends the string.
\<close>

datatype re_atom = Lit char | Dot

datatype token = TAtom re_atom | TStar | TQuest | TBar | TOpen | TClose | TCaret | TDollar

fun tokenize :: "string \<Rightarrow> token list option" where
  "tokenize [] = Some []"
| "tokenize (c # s) =
     (if c = backslash then
        (case s of
           [] \<Rightarrow> None
         | d # s' \<Rightarrow>
             if d = CHR ''0'' then
               (case s' of
                  d1 # d2 # s'' \<Rightarrow>
                    if d1 = CHR ''0'' \<and> d2 = CHR ''0''
                    then map_option ((#) (TAtom (Lit (CHR 0x00)))) (tokenize s'')
                    else None
                | _ \<Rightarrow> None)
             else if d \<in> set alphanum then None
             else map_option ((#) (TAtom (Lit d))) (tokenize s'))
      else if c = CHR ''.'' then map_option ((#) (TAtom Dot)) (tokenize s)
      else if c = CHR ''*'' then map_option ((#) TStar) (tokenize s)
      else if c = CHR ''?'' then map_option ((#) TQuest) (tokenize s)
      else if c = CHR ''|'' then map_option ((#) TBar) (tokenize s)
      else if c = CHR ''^'' then map_option ((#) TCaret) (tokenize s)
      else if c = CHR ''$'' then map_option ((#) TDollar) (tokenize s)
      else if c = CHR '')'' then map_option ((#) TClose) (tokenize s)
      else if c = CHR ''('' then
        (case s of
           q # k # s' \<Rightarrow>
             if q = CHR ''?'' \<and> k = CHR '':'' then map_option ((#) TOpen) (tokenize s') else None
         | _ \<Rightarrow> None)
      else if c \<in> set ''+{}[]'' then None
      else map_option ((#) (TAtom (Lit c))) (tokenize s))"

datatype re_item = One re_atom | Star re_atom | Opt re_atom

type_synonym regex = "re_item list list"

text \<open>Puts an item in front of the first alternative.\<close>

fun add_item :: "re_item \<Rightarrow> regex option \<Rightarrow> regex option" where
  "add_item i (Some (alt # alts)) = Some ((i # alt) # alts)"
| "add_item i _ = None"

text \<open>The alternatives after \<open>(?:\<close>, up to the closing \<open>)$\<close>.\<close>

fun parse_alternatives :: "token list \<Rightarrow> regex option" where
  "parse_alternatives [TClose, TDollar] = Some [[]]"
| "parse_alternatives (TBar # ts) = map_option ((#) []) (parse_alternatives ts)"
| "parse_alternatives (TAtom a # TStar # ts) = add_item (Star a) (parse_alternatives ts)"
| "parse_alternatives (TAtom a # TQuest # ts) = add_item (Opt a) (parse_alternatives ts)"
| "parse_alternatives (TAtom a # ts) = add_item (One a) (parse_alternatives ts)"
| "parse_alternatives _ = None"

definition re_compile :: "string \<Rightarrow> regex option" where
  "re_compile s =
     (case tokenize s of
        Some (TCaret # TOpen # ts) \<Rightarrow> parse_alternatives ts
      | _ \<Rightarrow> None)"

fun atom_matches :: "re_atom \<Rightarrow> char \<Rightarrow> bool" where
  "atom_matches (Lit d) c = (c = d)"
| "atom_matches Dot c = (c \<noteq> newline)"

text \<open>
  The matcher tries every way an item can consume input: each function returns the
  list of inputs that can remain, longest match first.
\<close>

fun star_rests :: "re_atom \<Rightarrow> string \<Rightarrow> string list" where
  "star_rests a [] = [[]]"
| "star_rests a (c # s) = (if atom_matches a c then star_rests a s @ [c # s] else [c # s])"

fun item_rests :: "re_item \<Rightarrow> string \<Rightarrow> string list" where
  "item_rests (One a) [] = []"
| "item_rests (One a) (c # s) = (if atom_matches a c then [s] else [])"
| "item_rests (Opt a) [] = [[]]"
| "item_rests (Opt a) (c # s) = (if atom_matches a c then [s, c # s] else [c # s])"
| "item_rests (Star a) s = star_rests a s"

fun items_rests :: "re_item list \<Rightarrow> string \<Rightarrow> string list" where
  "items_rests [] s = [s]"
| "items_rests (i # items) s = concat (map (items_rests items) (item_rests i s))"

definition at_end :: "string \<Rightarrow> bool" where
  "at_end s = (s = [] \<or> s = [newline])"

text \<open>\<open>regex.match(name)\<close> as a truth value.\<close>

definition re_match :: "regex \<Rightarrow> string \<Rightarrow> bool" where
  "re_match rx name = list_ex (\<lambda>alt. list_ex at_end (items_rests alt name)) rx"

text \<open>
  What the translation of a glob is compiled to: the tokens and the item of a glob
  character, and the tokens of the alternatives with their closing \<open>)$\<close>.
\<close>

definition glob_tokens :: "char \<Rightarrow> token list" where
  "glob_tokens c =
     (if c = CHR ''?'' then [TAtom Dot, TQuest]
      else if c = CHR ''*'' then [TAtom Dot, TStar]
      else [TAtom (Lit c)])"

definition glob_item :: "char \<Rightarrow> re_item" where
  "glob_item c =
     (if c = CHR ''?'' then Opt Dot
      else if c = CHR ''*'' then Star Dot
      else One (Lit c))"

fun alternatives_tokens :: "string list \<Rightarrow> token list" where
  "alternatives_tokens [] = [TClose, TDollar]"
| "alternatives_tokens [g] = concat (map glob_tokens g) @ [TClose, TDollar]"
| "alternatives_tokens (g # h # gs) = concat (map glob_tokens g) @ TBar # alternatives_tokens (h # gs)"

definition no_postfix :: "token list \<Rightarrow> bool" where
  "no_postfix ts = (case ts of TStar # _ \<Rightarrow> False | TQuest # _ \<Rightarrow> False | _ \<Rightarrow> True)"

subsection \<open>The selection in \<open>load\<close> and \<open>dump\<close>\<close>

text \<open>
  \<open>metadata.tables\<close> is a dictionary from table name to table; it is given as the list of
  its values in the order of \<open>metadata.tables.keys()\<close>.
\<close>

definition wildcards_to_regex :: "string list \<Rightarrow> error + regex" where
  "wildcards_to_regex strings =
     (case map_raising wildcard_glob_to_regex strings of
        Inl e \<Rightarrow> Inl e
      | Inr regex_parts \<Rightarrow>
          (case re_compile (regex_string regex_parts) of
             None \<Rightarrow> Inl RegexError
           | Some regex \<Rightarrow> Inr regex))"

definition select_table_names :: "table_obj list \<Rightarrow> string list \<Rightarrow> error + string list" where
  "select_table_names metadata tables =
     (if tables \<noteq> [] then
        (case wildcards_to_regex tables of
           Inl e \<Rightarrow> Inl e
         | Inr regex \<Rightarrow> Inr (filter (re_match regex) (map tbl_name metadata)))
      else Inr (map tbl_name metadata))"

text \<open>\<open>metadata.tables[name]\<close>\<close>

definition table_named :: "table_obj list \<Rightarrow> string \<Rightarrow> table_obj option" where
  "table_named metadata name = find (\<lambda>t. tbl_name t = name) metadata"

text \<open>
  The meaning of a glob in the words of the specification: \<open>*\<close> stands for any run of
  characters, \<open>?\<close> for at most one character, every other character for itself.
\<close>

fun glob_matches :: "string \<Rightarrow> string \<Rightarrow> bool" where
  "glob_matches [] name = (name = [])"
| "glob_matches (g # gs) name =
     (if g = CHR ''*'' then list_ex (\<lambda>k. glob_matches gs (drop k name)) [0..<Suc (length name)]
      else if g = CHR ''?'' then
        glob_matches gs name \<or> (name \<noteq> [] \<and> glob_matches gs (tl name))
      else name \<noteq> [] \<and> hd name = g \<and> glob_matches gs (tl name))"

section \<open>\<open>load\<close>\<close>

text \<open>
  \<open>sort_tables\<close> is SQLAlchemy's dependency sort and \<open>data_dir\<close> the directory that
  \<open>pkg_resources\<close> names; both are parameters. An exception leaves the session as it was
  when it was raised.
\<close>

definition drop_table :: "session \<Rightarrow> table_obj \<Rightarrow> session" where
  "drop_table s t = s\<lparr>trace := trace s @ [Drop (tbl_name t)]\<rparr>"

definition create_table :: "session \<Rightarrow> table_obj \<Rightarrow> session" where
  "create_table s t = s\<lparr>trace := trace s @ [Create (tbl_name t)]\<rparr>"

definition effective_directory :: "string \<Rightarrow> string option \<Rightarrow> string" where
  "effective_directory data_dir directory =
     (case directory of None \<Rightarrow> data_dir | Some d \<Rightarrow> if d = [] then data_dir else d)"

text \<open>
  \<open>[metadata.tables[name] for name in table_names]\<close>: the names are keys of the
  dictionary, so every lookup finds its table.
\<close>

definition selected_tables ::
  "table_obj list \<Rightarrow> string list \<Rightarrow> error + table_obj list" where
  "selected_tables metadata tables =
     (case select_table_names metadata tables of
        Inl e \<Rightarrow> Inl e
      | Inr table_names \<Rightarrow> Inr (List.map_filter (table_named metadata) table_names))"

definition load ::
  "table_obj list \<Rightarrow> (table_obj list \<Rightarrow> table_obj list) \<Rightarrow> files \<Rightarrow> string \<Rightarrow>
   session \<Rightarrow> string list \<Rightarrow> string option \<Rightarrow> bool \<Rightarrow> bool \<Rightarrow> session outcome" where
  "load metadata sort_tables fs data_dir session tables directory drop_tables verbose =
     (let directory' = effective_directory data_dir directory in
      case selected_tables metadata tables of
        Inl e \<Rightarrow> Inl (e, session)
      | Inr selected \<Rightarrow>
          (let table_objs = sort_tables selected;
               s1 = (if drop_tables then
                       print_done verbose ''ok''
                         (foldl drop_table (print_start verbose ''Dropping tables'' session)
                            (rev table_objs))
                     else session);
               s2 = foldl create_table s1 table_objs
           in load_tables verbose fs directory' table_objs s2))"

section \<open>\<open>dump\<close>\<close>

text \<open>
  A row that a query returns gives a value for every column name. The database holds the
  rows of a table in no particular order; \<open>order_by(*primary_key)\<close> sorts them by the
  values of the primary-key columns, which the database compares through \<open>sql_key\<close>.
\<close>

type_synonym db_row = "string \<Rightarrow> pyval"

definition primary_key_values :: "table_obj \<Rightarrow> db_row \<Rightarrow> pyval list" where
  "primary_key_values t row = map (\<lambda>c. row (col_name c)) (filter primary_key (tbl_columns t))"

definition query_ordered ::
  "(pyval list \<Rightarrow> 'k::linorder) \<Rightarrow> (string \<Rightarrow> db_row list) \<Rightarrow> table_obj \<Rightarrow> db_row list" where
  "query_ordered sql_key db t = sort_key (\<lambda>row. sql_key (primary_key_values t row)) (db (tbl_name t))"

text \<open>The lines written for one table: the header, then one line per row.\<close>

definition dump_lines ::
  "(pyval list \<Rightarrow> 'k::linorder) \<Rightarrow> (string \<Rightarrow> db_row list) \<Rightarrow> table_obj \<Rightarrow> csv_file" where
  "dump_lines sql_key db t =
     (let columns = map col_name (tbl_columns t)
      in columns # map (\<lambda>row. map (\<lambda>col. encode_value (row col)) columns) (query_ordered sql_key db t))"

text \<open>The state of \<open>dump\<close>: what was printed and the files written, in order.\<close>

record dump_state =
  printed :: session
  written :: "(string \<times> csv_file) list"

fun dump_tables ::
  "(pyval list \<Rightarrow> 'k::linorder) \<Rightarrow> (string \<Rightarrow> db_row list) \<Rightarrow> table_obj list \<Rightarrow> bool \<Rightarrow> string \<Rightarrow>
   string list \<Rightarrow> dump_state \<Rightarrow> dump_state outcome" where
  "dump_tables sql_key db metadata verbose directory [] d = Inr d"
| "dump_tables sql_key db metadata verbose directory (table_name # rest) d =
     (let d1 = d\<lparr>printed := print_start verbose table_name (printed d)\<rparr> in
      case table_named metadata table_name of
        None \<Rightarrow> Inl (KeyError table_name, d1)
      | Some t \<Rightarrow>
          (let d2 = d1\<lparr>written := written d1 @ [(csv_path directory table_name, dump_lines sql_key db t)]\<rparr>;
               d3 = d2\<lparr>printed := print_done verbose ''ok'' (printed d2)\<rparr>
           in dump_tables sql_key db metadata verbose directory rest d3))"

definition dump ::
  "table_obj list \<Rightarrow> (pyval list \<Rightarrow> 'k::linorder) \<Rightarrow> (string \<Rightarrow> db_row list) \<Rightarrow> string \<Rightarrow>
   session \<Rightarrow> string list \<Rightarrow> string option \<Rightarrow> bool \<Rightarrow> dump_state outcome" where
  "dump metadata sql_key db data_dir session tables directory verbose =
     (let directory' = effective_directory data_dir directory;
          d0 = \<lparr>printed = session, written = []\<rparr> in
      case select_table_names metadata tables of
        Inl e \<Rightarrow> Inl (e, d0)
      | Inr table_names \<Rightarrow>
          dump_tables sql_key db metadata verbose directory' (sort table_names) d0)"

section \<open>Reading an outcome\<close>

fun final_state :: "'a outcome \<Rightarrow> 'a" where
  "final_state (Inl (e, s)) = s"
| "final_state (Inr s) = s"

text \<open>The bulk inserts of a trace, the tables dropped and the tables created, in order.\<close>

fun flushes :: "event list \<Rightarrow> row_data list list" where
  "flushes [] = []"
| "flushes (Execute_many n rows # es) = rows # flushes es"
| "flushes (e # es) = flushes es"

fun dropped :: "event list \<Rightarrow> string list" where
  "dropped [] = []"
| "dropped (Drop n # es) = n # dropped es"
| "dropped (e # es) = dropped es"

fun created :: "event list \<Rightarrow> string list" where
  "created [] = []"
| "created (Create n # es) = n # created es"
| "created (e # es) = created es"


text \<open>Every record handed to the batch so far: those already inserted in bulk, then the batch.\<close>

definition enqueued :: "load_state \<Rightarrow> row_data list" where
  "enqueued st = concat (flushes (trace (sess st))) @ new_rows st"

text \<open>The batch is below the threshold and no bulk insert so far was above it.\<close>

definition bounded :: "load_state \<Rightarrow> bool" where
  "bounded st \<longleftrightarrow>
     length (new_rows st) < batch_size \<and>
     list_all (\<lambda>rows. length rows \<le> batch_size) (flushes (trace (sess st)))"

text \<open>A step from \<open>s\<close> to \<open>s'\<close> that neither drops nor creates a table nor opens a file.\<close>

definition quiet :: "session \<Rightarrow> session \<Rightarrow> bool" where
  "quiet s s' \<longleftrightarrow>
     dropped (trace s') = dropped (trace s) \<and> created (trace s') = created (trace s) \<and>
     opened s' = opened s"

section \<open>Example data\<close>

text \<open>
  A self-referential table: \<open>id\<close> is the primary key and the nullable column \<open>parent\<close>
  has a foreign key to the table itself.
\<close>

definition family :: table_obj where
  "family = \<lparr>tbl_name = ''family'', tbl_columns =
     [\<lparr>col_name = ''id'', nullable = False, is_boolean = False, foreign_keys = [],
       primary_key = True\<rparr>,
      \<lparr>col_name = ''parent'', nullable = True, is_boolean = False,
       foreign_keys = [''family''], primary_key = False\<rparr>]\<rparr>"

text \<open>The same shape with a \<open>parent\<close> column that is not nullable.\<close>

definition node :: table_obj where
  "node = \<lparr>tbl_name = ''node'', tbl_columns =
     [\<lparr>col_name = ''id'', nullable = False, is_boolean = False, foreign_keys = [],
       primary_key = True\<rparr>,
      \<lparr>col_name = ''parent'', nullable = False, is_boolean = False,
       foreign_keys = [''node''], primary_key = False\<rparr>]\<rparr>"

text \<open>The rows \<open>{id:1, parent:null}\<close>, \<open>{id:2, parent:1}\<close>, \<open>{id:3, parent:5}\<close>.\<close>

definition family_csv :: csv_file where
  "family_csv = [[''id'', ''parent''], [''1'', ''''], [''2'', ''1''], [''3'', ''5'']]"

definition empty_session :: session where
  "empty_session = \<lparr>trace = [], stdout = [], opened = []\<rparr>"

text \<open>A table without a self-reference and a file of 2500 lines for it.\<close>

definition item :: table_obj where
  "item = \<lparr>tbl_name = ''item'', tbl_columns =
     [\<lparr>col_name = ''name'', nullable = False, is_boolean = False, foreign_keys = [],
       primary_key = True\<rparr>]\<rparr>"


text \<open>
  A database in which \<open>family\<close> holds two rows, stored out of key order, and \<open>item\<close>
  none; the keys of \<open>family\<close> are integers.
\<close>

definition family_rows :: "db_row list" where
  "family_rows =
     [(\<lambda>col. if col = ''id'' then PInt 2 else PInt 1),
      (\<lambda>col. if col = ''id'' then PInt 1 else PNone)]"

definition example_db :: "string \<Rightarrow> db_row list" where
  "example_db table_name = (if table_name = ''family'' then family_rows else [])"

definition int_key :: "pyval list \<Rightarrow> int" where
  "int_key vs = (case vs of [PInt i] \<Rightarrow> i | _ \<Rightarrow> 0)"

text \<open>A table whose name ends in the two bytes of an accented letter in UTF-8.\<close>

definition accent_table :: table_obj where
  "accent_table = \<lparr>tbl_name = ''caf'' @ [CHR 0xC3, CHR 0xA9], tbl_columns = []\<rparr>"

text \<open>A table whose name ends in a newline.\<close>

definition odd_table :: table_obj where
  "odd_table = \<lparr>tbl_name = ''abc'' @ [newline], tbl_columns = []\<rparr>"

text \<open>A nullable text column and a boolean column.\<close>

definition name_column :: column where
  "name_column = \<lparr>col_name = ''name'', nullable = True, is_boolean = False,
     foreign_keys = [], primary_key = False\<rparr>"

definition flag_column :: column where
  "flag_column = \<lparr>col_name = ''is_default'', nullable = False, is_boolean = True,
     foreign_keys = [], primary_key = False\<rparr>"

section \<open>The UTF-8 codec round trip\<close>

lemma byte_val: "n < 256 \<Longrightarrow> (of_char (byte n) :: nat) = n" by (simp add: byte_def)

lemma base64_digits3: "(c::nat) = (c div 0x1000 * 0x40 + c div 0x40 mod 0x40) * 0x40 + c mod 0x40"
proof -
  have "c div 0x1000 = c div 0x40 div 0x40" by (simp add: div_mult2_eq [symmetric])
  then show ?thesis by simp
qed
lemma base64_digits4: "(c::nat) = ((c div 0x40000 * 0x40 + c div 0x1000 mod 0x40) * 0x40 + c div 0x40 mod 0x40) * 0x40 + c mod 0x40"
proof -
  have "c div 0x40000 = c div 0x1000 div 0x40" by (simp add: div_mult2_eq [symmetric])
  then have "c div 0x40000 * 0x40 + c div 0x1000 mod 0x40 = c div 0x1000" by simp
  then show ?thesis using base64_digits3 [of c] by simp
qed
lemma utf8_dec_ascii: "n < 0x80 \<Longrightarrow> utf8_dec 0 a l (byte n # bs) = map_option ((#) n) (utf8_dec 0 0 0 bs)"
  by (simp add: byte_val)

lemma utf8_dec_lead2: "a < 0x20 \<Longrightarrow> utf8_dec 0 x l (byte (0xC0 + a) # bs) = utf8_dec 1 a 0x80 bs"
  by (simp add: byte_val)

lemma utf8_dec_lead3: "a < 0x10 \<Longrightarrow> utf8_dec 0 x l (byte (0xE0 + a) # bs) = utf8_dec 2 a 0x800 bs"
  by (simp add: byte_val)

lemma utf8_dec_lead4: "a < 0x8 \<Longrightarrow> utf8_dec 0 x l (byte (0xF0 + a) # bs) = utf8_dec 3 a 0x10000 bs"
  by (simp add: byte_val)

lemma utf8_dec_cont: "b < 0x40 \<Longrightarrow> utf8_dec (Suc (Suc k)) acc lo (byte (0x80 + b) # bs) = utf8_dec (Suc k) (acc * 0x40 + b) lo bs"
  by (simp add: byte_val)

lemma utf8_dec_last: "b < 0x40 \<Longrightarrow> lo \<le> acc * 0x40 + b \<Longrightarrow> acc * 0x40 + b < 0x110000 \<Longrightarrow>
   utf8_dec (Suc 0) acc lo (byte (0x80 + b) # bs) = map_option ((#) (acc * 0x40 + b)) (utf8_dec 0 0 0 bs)"
  by (simp add: byte_val)

lemma utf8_dec_cp2: assumes "\<not> c < 0x80" "c < 0x800" shows "utf8_dec 0 0 0 (utf8_encode_cp c @ rest) = map_option ((#) c) (utf8_dec 0 0 0 rest)"
proof -
  define a where "a = c div 0x40"
  define b where "b = c mod 0x40"
  have c: "c = a * 0x40 + b" by (simp add: a_def b_def)
  have r: "a < 0x20" "b < 0x40" using assms by (auto simp: a_def b_def)
  have e: "utf8_encode_cp c = [byte (0xC0 + a), byte (0x80 + b)]"
    using assms by (simp add: utf8_encode_cp_def a_def b_def)
  have "utf8_dec 0 0 0 (utf8_encode_cp c @ rest) = utf8_dec (Suc 0) a 0x80 (byte (0x80 + b) # rest)"
    unfolding e using utf8_dec_lead2 [OF r(1)] by simp
  also have "\<dots> = map_option ((#) (a * 0x40 + b)) (utf8_dec 0 0 0 rest)"
    using assms r c by (intro utf8_dec_last) auto
  finally show ?thesis by (simp only: c)
qed

lemma utf8_dec_cp3: assumes "\<not> c < 0x800" "c < 0x10000" shows "utf8_dec 0 0 0 (utf8_encode_cp c @ rest) = map_option ((#) c) (utf8_dec 0 0 0 rest)"
proof -
  define a where "a = c div 0x1000"
  define b where "b = c div 0x40 mod 0x40"
  define d where "d = c mod 0x40"
  have c: "c = (a * 0x40 + b) * 0x40 + d" unfolding a_def b_def d_def by (rule base64_digits3)
  have r: "a < 0x10" "b < 0x40" "d < 0x40" using assms by (auto simp: a_def b_def d_def)
  have e: "utf8_encode_cp c = [byte (0xE0 + a), byte (0x80 + b), byte (0x80 + d)]"
    using assms by (simp add: utf8_encode_cp_def a_def b_def d_def)
  have "utf8_dec 0 0 0 (utf8_encode_cp c @ rest) = utf8_dec (Suc (Suc 0)) a 0x800 (byte (0x80 + b) # byte (0x80 + d) # rest)"
    unfolding e using utf8_dec_lead3 [OF r(1)] by (simp add: numeral_2_eq_2)
  also have "\<dots> = utf8_dec (Suc 0) (a * 0x40 + b) 0x800 (byte (0x80 + d) # rest)"
    using r by (simp only: utf8_dec_cont)
  also have "\<dots> = map_option ((#) ((a * 0x40 + b) * 0x40 + d)) (utf8_dec 0 0 0 rest)"
    using assms r c by (intro utf8_dec_last) auto
  finally show ?thesis by (simp only: c)
qed

lemma utf8_dec_cp4: assumes "\<not> c < 0x10000" "c < 0x110000" shows "utf8_dec 0 0 0 (utf8_encode_cp c @ rest) = map_option ((#) c) (utf8_dec 0 0 0 rest)"
proof -
  define a where "a = c div 0x40000"
  define b where "b = c div 0x1000 mod 0x40"
  define d where "d = c div 0x40 mod 0x40"
  define f where "f = c mod 0x40"
  have c: "c = ((a * 0x40 + b) * 0x40 + d) * 0x40 + f" unfolding a_def b_def d_def f_def by (rule base64_digits4)
  have r: "a < 0x8" "b < 0x40" "d < 0x40" "f < 0x40" using assms by (auto simp: a_def b_def d_def f_def)
  have e: "utf8_encode_cp c = [byte (0xF0 + a), byte (0x80 + b), byte (0x80 + d), byte (0x80 + f)]"
    using assms by (simp add: utf8_encode_cp_def a_def b_def d_def f_def)
  have "utf8_dec 0 0 0 (utf8_encode_cp c @ rest) = utf8_dec (Suc (Suc (Suc 0))) a 0x10000 (byte (0x80 + b) # byte (0x80 + d) # byte (0x80 + f) # rest)"
    unfolding e using utf8_dec_lead4 [OF r(1)] by (simp add: numeral_3_eq_3)
  also have "\<dots> = utf8_dec (Suc (Suc 0)) (a * 0x40 + b) 0x10000 (byte (0x80 + d) # byte (0x80 + f) # rest)"
    using r by (simp only: utf8_dec_cont)
  also have "\<dots> = utf8_dec (Suc 0) ((a * 0x40 + b) * 0x40 + d) 0x10000 (byte (0x80 + f) # rest)"
    using r by (simp only: utf8_dec_cont)
  also have "\<dots> = map_option ((#) (((a * 0x40 + b) * 0x40 + d) * 0x40 + f)) (utf8_dec 0 0 0 rest)"
    using assms r c by (intro utf8_dec_last) auto
  finally show ?thesis by (simp only: c)
qed

lemma utf8_dec_cp1: assumes "c < 0x80" shows "utf8_dec 0 0 0 (utf8_encode_cp c @ rest) = map_option ((#) c) (utf8_dec 0 0 0 rest)"
proof -
  have "utf8_encode_cp c = [byte c]" using assms by (simp add: utf8_encode_cp_def)
  then have "utf8_dec 0 0 0 (utf8_encode_cp c @ rest) = utf8_dec 0 0 0 (byte c # rest)" by simp
  also have "\<dots> = map_option ((#) c) (utf8_dec 0 0 0 rest)" using assms by (rule utf8_dec_ascii)
  finally show ?thesis .
qed

lemma utf8_dec_encode_cp:
  assumes "c < 0x110000"
  shows "utf8_dec 0 0 0 (utf8_encode_cp c @ rest) = map_option ((#) c) (utf8_dec 0 0 0 rest)"
proof (cases "c < 0x80")
  case True
  then show ?thesis by (rule utf8_dec_cp1)
next
  case n1: False
  show ?thesis
  proof (cases "c < 0x800")
    case True
    with n1 show ?thesis by (rule utf8_dec_cp2)
  next
    case n2: False
    show ?thesis
    proof (cases "c < 0x10000")
      case True
      with n2 show ?thesis by (rule utf8_dec_cp3)
    next
      case False
      then show ?thesis using assms by (rule utf8_dec_cp4)
    qed
  qed
qed

lemma utf8_roundtrip: "valid_text u \<Longrightarrow> utf8_decode (utf8_encode u) = Some u"
  unfolding utf8_decode_def utf8_encode_def valid_text_def
proof (induction u)
  case Nil
  show ?case by simp
next
  case (Cons c u)
  then have "c < 0x110000" and ih: "utf8_dec 0 0 0 (concat (map utf8_encode_cp u)) = Some u" by simp_all
  then show ?case using utf8_dec_encode_cp [of c "concat (map utf8_encode_cp u)"] by simp
qed

section \<open>Evaluating the loader\<close>

lemmas load_defs = load_csv_def start_state_def process_row_def decode_line_def resolve_row_def mark_seen_def
  append_row_def insert_and_commit_def all_seen_def self_ref_columns_def lookup_column_def
  decode_value_def utf8_decode_def is_ascii_def batch_size_def commit_def

section \<open>The batch and the rows handed to it\<close>

lemma flushes_append: "flushes (a @ b) = flushes a @ flushes b"
  by (induction a rule: flushes.induct) simp_all

lemma enqueued_insert_and_commit: "enqueued (insert_and_commit n st) = enqueued st"
  by (simp add: enqueued_def insert_and_commit_def flushes_append)

lemma enqueued_append_row: "enqueued (append_row n r st) = enqueued st @ [r]"
  by (simp add: append_row_def Let_def enqueued_insert_and_commit) (simp add: enqueued_def)

lemma enqueued_seen_ids_update: "enqueued (st\<lparr>seen_ids := x\<rparr>) = enqueued st"
  by (simp add: enqueued_def)

lemma seen_ids_append_row: "seen_ids (append_row n r st) = seen_ids st"
  by (simp add: append_row_def Let_def insert_and_commit_def)

lemma deferred_rows_append_row: "deferred_rows (append_row n r st) = deferred_rows st"
  by (simp add: append_row_def Let_def insert_and_commit_def)

section \<open>The value codec\<close>

lemma utf8_encode_nonempty: "u \<noteq> [] \<Longrightarrow> utf8_encode u \<noteq> []"
  by (cases u) (auto simp: utf8_encode_def utf8_encode_cp_def)

lemma encode_value_None: "encode_value PNone = []"
  by (simp add: encode_value_def)

lemma encode_value_Bool: "encode_value (PBool b) = (if b then ''1'' else ''0'')"
  by (simp add: encode_value_def py_eq_def)

lemma encode_value_Text: "encode_value (PText u) = utf8_encode u"
  by (simp add: encode_value_def py_eq_def py_unicode_def)

lemma show_nat_digits: "set (show_nat n) \<subseteq> {48..57} \<and> show_nat n \<noteq> []"
proof (induction n rule: show_nat.induct)
  case (1 n)
  show ?case
  proof (cases "n < 10")
    case True
    then show ?thesis by (subst show_nat.simps, subst show_nat.simps) (simp add: digit_def)
  next
    case False
    have "n mod 10 < 10" by simp
    with False "1.IH" show ?thesis
      by (subst show_nat.simps, subst show_nat.simps) (auto simp: digit_def)
  qed
qed

lemma show_int_text: "valid_text (show_int i) \<and> show_int i \<noteq> []"
  using show_nat_digits [of "nat i"] show_nat_digits [of "nat (- i)"]
  by (auto simp: show_int_def valid_text_def list_all_iff)

lemma encode_value_Int: "encode_value (PInt i) = utf8_encode (show_int i)"
proof -
  have one: "utf8_encode (show_int 1) = ''1''" by code_simp
  have zero: "utf8_encode (show_int 0) = ''0''" by code_simp
  show ?thesis
    using one zero by (simp add: encode_value_def py_eq_def py_unicode_def)
qed

text \<open>
  Claim C4, as the code has it. The codec is a round trip for a null in a nullable column
  (through the empty text), for a boolean in a boolean column (\<open>False\<close> through \<open>0\<close>,
  \<open>True\<close> through \<open>1\<close>; on load \<open>0\<close> is \<open>False\<close> and any other text \<open>True\<close>, the empty text
  of a nullable column apart), and for text, non-ASCII text included, through UTF-8,
  except that the empty text of a nullable column comes back as null. An integer is
  written as its decimal text and read back as that text.
\<close>

theorem codec_roundtrip:
  "(nullable col \<longrightarrow> encode_value PNone = [] \<and> decode_value col [] = Inr PNone)
   \<and> encode_value (PBool False) = ''0'' \<and> encode_value (PBool True) = ''1''
   \<and> (is_boolean col \<longrightarrow> decode_value col (encode_value (PBool b)) = Inr (PBool b))
   \<and> (is_boolean col \<and> \<not> (nullable col \<and> v = []) \<longrightarrow> decode_value col v = Inr (PBool (v \<noteq> ''0'')))
   \<and> (\<not> is_boolean col \<and> valid_text u \<and> (nullable col \<longrightarrow> u \<noteq> []) \<longrightarrow>
        decode_value col (encode_value (PText u)) = Inr (PText u))
   \<and> (\<not> is_boolean col \<longrightarrow> decode_value col (encode_value (PInt i)) = Inr (PText (show_int i)))"
proof -
  have r_null: "nullable col \<longrightarrow> encode_value PNone = [] \<and> decode_value col [] = Inr PNone"
    by (simp add: encode_value_None decode_value_def)
  have r_bool: "is_boolean col \<longrightarrow> decode_value col (encode_value (PBool b)) = Inr (PBool b)"
    by (simp add: encode_value_Bool decode_value_def)
  have load_bool: "is_boolean col \<and> \<not> (nullable col \<and> v = []) \<longrightarrow> decode_value col v = Inr (PBool (v \<noteq> ''0''))"
    by (auto simp: decode_value_def)
  have r_text: "\<not> is_boolean col \<and> valid_text u \<and> (nullable col \<longrightarrow> u \<noteq> []) \<longrightarrow>
        decode_value col (encode_value (PText u)) = Inr (PText u)"
    using utf8_encode_nonempty [of u]
    by (auto simp: encode_value_Text decode_value_def utf8_roundtrip)
  have r_int: "\<not> is_boolean col \<longrightarrow> decode_value col (encode_value (PInt i)) = Inr (PText (show_int i))"
    using show_int_text [of i] utf8_encode_nonempty [of "show_int i"]
    by (simp add: encode_value_Int decode_value_def utf8_roundtrip)
  show ?thesis using r_null r_bool load_bool r_text r_int by (simp add: encode_value_Bool)
qed

theorem codec_roundtrip_witness:
  "decode_value name_column (encode_value PNone) = Inr PNone
   \<and> decode_value flag_column (encode_value (PBool False)) = Inr (PBool False)
   \<and> decode_value flag_column ''yes'' = Inr (PBool True)
   \<and> decode_value name_column (encode_value (PText [0x50, 0x6F, 0x6B, 0xE9, 0x30DD, 0x1F600]))
       = Inr (PText [0x50, 0x6F, 0x6B, 0xE9, 0x30DD, 0x1F600])"
proof -
  let ?u = "[0x50, 0x6F, 0x6B, 0xE9, 0x30DD, 0x1F600] :: unicode"
  have n: "nullable name_column" "\<not> is_boolean name_column" "valid_text ?u" "?u \<noteq> []"
    by (simp_all add: name_column_def valid_text_def)
  have f: "is_boolean flag_column" "\<not> (nullable flag_column \<and> ''yes'' = [])"
    by (simp_all add: flag_column_def)
  have y: "(''yes'' \<noteq> ''0'') = True" by simp
  note a = codec_roundtrip [of name_column False "[]" ?u 0]
  note b = codec_roundtrip [of flag_column False "''yes''" "[]" 0]
  from a n have 1: "decode_value name_column (encode_value PNone) = Inr PNone" by metis
  from a n have 4: "decode_value name_column (encode_value (PText ?u)) = Inr (PText ?u)" by metis
  from b f have 2: "decode_value flag_column (encode_value (PBool False)) = Inr (PBool False)" by metis
  from b f have 3: "decode_value flag_column ''yes'' = Inr (PBool True)" unfolding y by metis
  from 1 2 3 4 show ?thesis by blast
qed


text \<open>
  As stated, with no exception, C4 fails: the empty text is a value of a nullable text
  column, it is written as the empty field, and the empty field is read back as null.
\<close>

theorem codec_roundtrip_counterexample:
  "decode_value name_column (encode_value (PText [])) \<noteq> Inr (PText [])"
  by (simp add: encode_value_Text utf8_encode_def decode_value_def name_column_def)

section \<open>The replay of deferred rows\<close>

text \<open>
  One step of the replay: a deferred record whose keys have all been seen is inserted on
  its own and its key is marked seen; at the first record with a key not seen the loop
  stops with the \<open>NameError\<close>.
\<close>

lemma replay_deferred_resolved:
  assumes "all_seen (seen_ids st) foreign_ids" and "row_data ''id'' = Some i"
  shows "replay_deferred n ((row_data, foreign_ids) # rest) st =
    replay_deferred n rest
      (st\<lparr>sess := (sess st)\<lparr>trace := trace (sess st) @ [Execute_one n row_data]\<rparr>,
          seen_ids := insert (py_key i) (seen_ids st)\<rparr>)"
  using assms by (simp add: mark_seen_def)

lemma replay_deferred_unresolved:
  assumes "\<not> all_seen (seen_ids st) foreign_ids"
  shows "replay_deferred n ((row_data, foreign_ids) # rest) st = Inl (NameError ''row'', st)"
  using assms by simp

text \<open>
  A forward reference that the file resolves: row 2 refers to row 1, which comes after
  it; row 1 is inserted with the batch and row 2 on its own in the replay.
\<close>

lemma forward_reference_resolved:
  "load_csv family [[''id'', ''parent''], [''2'', ''1''], [''1'', '''']] empty_session =
     Inr \<lparr>sess = \<lparr>trace =
           [Execute_many ''family'' [[''id'' \<mapsto> PText [49], ''parent'' \<mapsto> PNone]], Commit,
            Execute_one ''family'' [''id'' \<mapsto> PText [50], ''parent'' \<mapsto> PText [49]], Commit],
          stdout = [], opened = []\<rparr>,
        new_rows = [],
        seen_ids = {PText [50], PText [49]},
        deferred_rows = [([''id'' \<mapsto> PText [50], ''parent'' \<mapsto> PText [49]], [PText [49]])]\<rparr>"
  by (simp add: load_defs family_def empty_session_def Let_def)

text \<open>
  Claim C2, at its own example: the rows \<open>{id:1, parent:null}\<close>, \<open>{id:2, parent:1}\<close>,
  \<open>{id:3, parent:5}\<close>. Rows 1 and 2 are inserted and committed and row 3 is deferred, as
  the claim says; but the failure is a \<open>NameError\<close> for the unbound name \<open>row\<close>, not an
  error that identifies row 3.
\<close>

theorem unresolved_self_reference_is_NameError:
  "load_csv family family_csv empty_session =
     Inl (NameError ''row'',
       \<lparr>sess = \<lparr>trace =
           [Execute_many ''family'' [[''id'' \<mapsto> PText [49], ''parent'' \<mapsto> PNone]], Commit,
            Execute_many ''family'' [[''id'' \<mapsto> PText [50], ''parent'' \<mapsto> PText [49]]], Commit],
          stdout = [], opened = []\<rparr>,
        new_rows = [],
        seen_ids = {PText [50], PText [49]},
        deferred_rows = [([''id'' \<mapsto> PText [51], ''parent'' \<mapsto> PText [53]], [PText [53]])]\<rparr>)"
  by (simp add: load_defs family_def family_csv_def empty_session_def Let_def)

section \<open>The resolver of self-references\<close>

text \<open>
  What the resolver does with a record that has its self-referential columns and its
  \<open>id\<close>: one of three things, decided by the truthy values of those columns.
\<close>

lemma resolve_row_actions:
  assumes "self_ref_columns t \<noteq> []"
    and "lookup_all row_data (map col_name (self_ref_columns t)) = Inr ids"
    and "row_data ''id'' = Some i"
  shows "resolve_row t row_data st =
    (if filter truthy ids = [] then
       Inr (append_row (tbl_name t) row_data (st\<lparr>seen_ids := insert (py_key i) (seen_ids st)\<rparr>))
     else if all_seen (seen_ids st) (filter truthy ids) then
       Inr (append_row (tbl_name t) row_data
             ((insert_and_commit (tbl_name t) st)\<lparr>seen_ids := insert (py_key i) (seen_ids st)\<rparr>))
     else Inr (st\<lparr>deferred_rows := deferred_rows st @ [(row_data, filter truthy ids)]\<rparr>))"
  using assms by (simp add: resolve_row_def mark_seen_def insert_and_commit_def)

text \<open>
  The values of a record come from \<open>decode_value\<close>: the field \<open>0\<close> of a column that is
  not boolean is the text \<open>0\<close>, which is not falsy.
\<close>

lemma zero_field_is_truthy_text:
  "\<not> is_boolean col \<Longrightarrow> decode_value col ''0'' = Inr (PText [48]) \<and> truthy (PText [48])"
  by (simp add: decode_value_def utf8_decode_def)

text \<open>
  Claim C10: the dependency set of a record is what is left of the values of its
  self-referential columns once every falsy value is removed, not only the nulls. A record
  whose self-referential columns hold only \<open>None\<close>, \<open>0\<close>, the empty text or \<open>False\<close> has
  the empty dependency set: its key is marked seen and it is handed to the batch at once,
  and it is not deferred, whatever keys have been seen.
\<close>

theorem falsy_reference_not_deferred:
  assumes "self_ref_columns t \<noteq> []"
    and "lookup_all row_data (map col_name (self_ref_columns t)) = Inr ids"
    and "list_all (\<lambda>v. v = PNone \<or> v = PInt 0 \<or> v = PText [] \<or> v = PBool False) ids"
    and "row_data ''id'' = Some i"
  shows "filter truthy ids = []
    \<and> resolve_row t row_data st =
        Inr (append_row (tbl_name t) row_data (st\<lparr>seen_ids := insert (py_key i) (seen_ids st)\<rparr>))
    \<and> py_key i \<in> seen_ids (final_state (resolve_row t row_data st))
    \<and> enqueued (final_state (resolve_row t row_data st)) = enqueued st @ [row_data]
    \<and> deferred_rows (final_state (resolve_row t row_data st)) = deferred_rows st"
proof -
  have f: "filter truthy ids = []"
    using assms(3) by (induction ids) auto
  have r: "resolve_row t row_data st =
        Inr (append_row (tbl_name t) row_data (st\<lparr>seen_ids := insert (py_key i) (seen_ids st)\<rparr>))"
    using assms f by (simp add: resolve_row_def mark_seen_def)
  show ?thesis
    unfolding r using f
    by (simp add: seen_ids_append_row enqueued_append_row deferred_rows_append_row
        enqueued_seen_ids_update)
qed

theorem falsy_reference_not_deferred_witness:
  "resolve_row node [''id'' \<mapsto> PText [50], ''parent'' \<mapsto> PText []] (start_state empty_session) =
     Inr (append_row (tbl_name node) [''id'' \<mapsto> PText [50], ''parent'' \<mapsto> PText []]
           ((start_state empty_session)\<lparr>seen_ids := insert (PText [50]) (seen_ids (start_state empty_session))\<rparr>))
   \<and> deferred_rows (final_state (resolve_row node [''id'' \<mapsto> PText [50], ''parent'' \<mapsto> PText []]
         (start_state empty_session))) = deferred_rows (start_state empty_session)"
proof -
  let ?r = "[''id'' \<mapsto> PText [50], ''parent'' \<mapsto> PText []]"
  have a: "self_ref_columns node \<noteq> []"
    by (simp add: node_def self_ref_columns_def)
  have b: "lookup_all ?r (map col_name (self_ref_columns node)) = Inr [PText []]"
    by (simp add: node_def self_ref_columns_def)
  have c: "list_all (\<lambda>v. v = PNone \<or> v = PInt 0 \<or> v = PText [] \<or> v = PBool False) [PText []]"
    by simp
  have d: "?r ''id'' = Some (PText [50])"
    by simp
  have k: "py_key (PText [50]) = PText [50]"
    by simp
  from falsy_reference_not_deferred [OF a b c d, of "start_state empty_session"]
  show ?thesis unfolding k by blast
qed

text \<open>
  Claim C1 speaks of the non-null values of the self-referential columns. In table \<open>node\<close>
  the column \<open>parent\<close> is not nullable, so an empty field is read as the empty text, which
  is not null and is the key of no row seen; C1 has such a record deferred. The code marks
  it seen and puts it in the batch.
\<close>

theorem empty_text_reference_not_deferred:
  "process_row node [''id'', ''parent''] [''2'', ''''] (start_state empty_session) =
     Inr \<lparr>sess = empty_session,
          new_rows = [[''id'' \<mapsto> PText [50], ''parent'' \<mapsto> PText []]],
          seen_ids = {PText [50]},
          deferred_rows = []\<rparr>"
  by (simp add: load_defs node_def empty_session_def Let_def)
section \<open>The record of a line\<close>

lemma lookup_column_Some:
  "lookup_column t cn = Some col \<Longrightarrow> col \<in> set (tbl_columns t) \<and> col_name col = cn"
  by (auto simp: lookup_column_def find_Some_iff)

lemma build_row_data_dom:
  "build_row_data t zs rd0 = Inr rd \<Longrightarrow> dom rd = dom rd0 \<union> fst ` set zs"
  by (induction t zs rd0 rule: build_row_data.induct)
     (auto split: option.splits sum.splits)

lemma build_row_data_columns:
  "build_row_data t zs rd0 = Inr rd \<Longrightarrow> cn \<in> fst ` set zs \<Longrightarrow> cn \<in> col_name ` set (tbl_columns t)"
  by (induction t zs rd0 rule: build_row_data.induct)
     (auto split: option.splits sum.splits dest: lookup_column_Some)

lemma build_row_data_other:
  "build_row_data t zs rd0 = Inr rd \<Longrightarrow> cn \<notin> fst ` set zs \<Longrightarrow> rd cn = rd0 cn"
  by (induction t zs rd0 rule: build_row_data.induct)
     (auto split: option.splits sum.splits)

lemma build_row_data_value:
  "build_row_data t zs rd0 = Inr rd \<Longrightarrow> distinct (map fst zs) \<Longrightarrow> (cn, v) \<in> set zs \<Longrightarrow>
   \<exists>col val. lookup_column t cn = Some col \<and> decode_value col v = Inr val \<and> rd cn = Some val"
proof (induction t zs rd0 rule: build_row_data.induct)
  case (1 t row_data)
  then show ?case by simp
next
  case (2 t column_name w rest row_data)
  from "2.prems"(1) obtain col val where
    c: "lookup_column t column_name = Some col" and d: "decode_value col w = Inr val"
    and r: "build_row_data t rest (row_data(column_name \<mapsto> val)) = Inr rd"
    by (auto split: option.splits sum.splits)
  from "2.prems"(2) have dist: "distinct (map fst rest)" and fresh: "column_name \<notin> fst ` set rest"
    by auto
  show ?case
  proof (cases "(cn, v) = (column_name, w)")
    case True
    with build_row_data_other [OF r fresh] c d show ?thesis by auto
  next
    case False
    with "2.prems"(3) have "(cn, v) \<in> set rest" by auto
    from "2.IH" [OF c d r dist this] show ?thesis .
  qed
qed

text \<open>
  Claim C9, as the code has it. The record of a line is built from the empty dictionary
  and depends on nothing but the table, the header and the line. Its keys are the first
  header names, as many as the line has fields, and all of them are columns of the table;
  when the header names every column of the table and the line is not shorter than the
  header, the record has a value for exactly the columns of the table. With a header
  without repetition, the value under a name is the decoded field at its position.
\<close>

theorem record_of_line:
  assumes "decode_line t column_names csvs = Inr row_data"
  shows "dom row_data = set (take (length csvs) column_names)
    \<and> dom row_data \<subseteq> set (map col_name (tbl_columns t))
    \<and> (set column_names = set (map col_name (tbl_columns t)) \<and> length column_names \<le> length csvs
        \<longrightarrow> dom row_data = set (map col_name (tbl_columns t)))
    \<and> (distinct column_names \<longrightarrow>
        (\<forall>i < min (length column_names) (length csvs).
           \<exists>col val. lookup_column t (column_names ! i) = Some col
             \<and> decode_value col (csvs ! i) = Inr val
             \<and> row_data (column_names ! i) = Some val))"
proof -
  let ?zs = "zip column_names csvs"
  have b: "build_row_data t ?zs Map.empty = Inr row_data"
    using assms by (simp add: decode_line_def)
  have keys: "fst ` set ?zs = set (take (length csvs) column_names)"
    by (metis list.set_map map_fst_zip_take min.commute take_take take_all order_refl)
  have d: "dom row_data = set (take (length csvs) column_names)"
    using build_row_data_dom [OF b] keys by simp
  have c: "dom row_data \<subseteq> set (map col_name (tbl_columns t))"
    using build_row_data_columns [OF b] build_row_data_dom [OF b] by auto
  have v: "\<exists>col val. lookup_column t (column_names ! i) = Some col
             \<and> decode_value col (csvs ! i) = Inr val
             \<and> row_data (column_names ! i) = Some val"
    if "distinct column_names" "i < min (length column_names) (length csvs)" for i
  proof -
    have "distinct (map fst ?zs)"
      using that(1) by (simp add: map_fst_zip_take)
    moreover have "(column_names ! i, csvs ! i) \<in> set ?zs"
      using that(2) by (metis length_zip nth_mem nth_zip min_less_iff_conj)
    ultimately show ?thesis by (rule build_row_data_value [OF b])
  qed
  show ?thesis using d c v by simp
qed

theorem record_of_line_witness:
  "dom [''id'' \<mapsto> PText [50], ''parent'' \<mapsto> PText [49]] = set (map col_name (tbl_columns family))"
proof -
  have a: "decode_line family [''id'', ''parent''] [''2'', ''1''] = Inr [''id'' \<mapsto> PText [50], ''parent'' \<mapsto> PText [49]]"
    by (simp add: load_defs family_def)
  have b: "set [''id'', ''parent''] = set (map col_name (tbl_columns family))
     \<and> length [''id'', ''parent''] \<le> length [''2'', ''1'']"
    by (simp add: family_def)
  from record_of_line [OF a] b show ?thesis by blast
qed

text \<open>
  As stated, C9 fails on a line shorter than the header: \<open>zip\<close> stops at the shorter
  list and the record has no value for the remaining columns.
\<close>

theorem short_line_counterexample:
  "decode_line family [''id'', ''parent''] [''7''] = Inr [''id'' \<mapsto> PText [55]]
   \<and> ''parent'' \<in> set (map col_name (tbl_columns family))
   \<and> ''parent'' \<notin> dom [''id'' \<mapsto> PText [55]]"
  by (simp add: load_defs family_def)
section \<open>The batched writer\<close>



lemma bounded_seen_ids_update: "bounded (st\<lparr>seen_ids := x\<rparr>) = bounded st"
  by (simp add: bounded_def)


lemma bounded_mark_seen: "bounded st \<Longrightarrow> bounded (final_state (mark_seen r st))"
  by (simp add: mark_seen_def bounded_seen_ids_update split: option.splits)

lemma mark_seen_cases:
  "(\<exists>e. mark_seen r st = Inl (e, st)) \<or> (\<exists>i. mark_seen r st = Inr (st\<lparr>seen_ids := insert i (seen_ids st)\<rparr>))"
  by (auto simp: mark_seen_def split: option.splits)




lemma bounded_trace_update:
  "flushes (trace s') = flushes (trace (sess st)) \<Longrightarrow> bounded (st\<lparr>sess := s'\<rparr>) = bounded st"
  by (simp add: bounded_def)



























section \<open>A table without a file\<close>

text \<open>
  Claim C8: when the file of a table cannot be opened, loading the table raises nothing
  and adds nothing to the database calls; in verbose mode the start line and then
  \<open>missing?\<close> are printed, otherwise nothing; and the loop goes on with the next table.
\<close>

theorem missing_file_skipped:
  assumes "fs (csv_path directory (tbl_name t)) = None"
  shows "load_table verbose fs directory t s =
      Inr (s\<lparr>stdout := stdout s @ (if verbose then
               [take 66 (tbl_name t) @ ''...'' @ replicate (66 - length (take 66 (tbl_name t))) CHR '' '', ''missing?'']
             else []),
           opened := opened s @ [csv_path directory (tbl_name t)]\<rparr>)
    \<and> trace (final_state (load_table verbose fs directory t s)) = trace s
    \<and> load_tables verbose fs directory (t # ts) s =
        load_tables verbose fs directory ts (final_state (load_table verbose fs directory t s))"
  using assms
  by (simp add: load_table_def print_start_def print_done_def Let_def)

theorem missing_file_skipped_witness:
  "load_tables True Map.empty ''data'' [family, item] empty_session =
     Inr \<lparr>trace = [],
          stdout = [''family...'' @ replicate 60 CHR '' '', ''missing?'',
                    ''item...'' @ replicate 62 CHR '' '', ''missing?''],
          opened = [''data/family.csv'', ''data/item.csv'']\<rparr>"
proof -
  have a: "Map.empty (csv_path ''data'' (tbl_name family)) = (None :: csv_file option)" by simp
  have b: "Map.empty (csv_path ''data'' (tbl_name item)) = (None :: csv_file option)" by simp
  note f = missing_file_skipped [where verbose = True and s = empty_session and ts = "[item]", OF a]
  note i = missing_file_skipped [where verbose = True and ts = "[]"
      and s = "final_state (load_table True Map.empty ''data'' family empty_session)", OF b]
  from f i show ?thesis
    by (simp add: family_def item_def empty_session_def csv_path_def)
qed
section \<open>The order of drop, create and load\<close>

lemma dropped_append: "dropped (a @ b) = dropped a @ dropped b"
  by (induction a rule: dropped.induct) simp_all

lemma created_append: "created (a @ b) = created a @ created b"
  by (induction a rule: created.induct) simp_all

lemma quiet_refl: "quiet s s"
  by (simp add: quiet_def)

lemma quiet_trans: "quiet a b \<Longrightarrow> quiet b c \<Longrightarrow> quiet a c"
  by (simp add: quiet_def)

lemma quiet_insert_and_commit: "quiet (sess st) (sess (insert_and_commit n st))"
  by (simp add: quiet_def insert_and_commit_def dropped_append created_append)

lemma quiet_append_row: "quiet (sess st) (sess (append_row n r st))"
  by (simp add: append_row_def Let_def quiet_def insert_and_commit_def dropped_append created_append)

lemma sess_mark_seen: "sess (final_state (mark_seen r st)) = sess st"
  by (simp add: mark_seen_def split: option.splits)

lemma quiet_after_mark_seen:
  "quiet (sess st) (sess (final_state
     (case mark_seen r st of Inl x \<Rightarrow> Inl x | Inr st1 \<Rightarrow> Inr (append_row n r st1))))"
proof -
  have a: "quiet (sess st) (sess (append_row n r (st\<lparr>seen_ids := i\<rparr>)))" for i
    using quiet_append_row [where st = "st\<lparr>seen_ids := i\<rparr>" and n = n and r = r] by simp
  from mark_seen_cases [of r st] show ?thesis
    by (auto simp: quiet_refl a)
qed

lemma quiet_resolve_row: "quiet (sess st) (sess (final_state (resolve_row t r st)))"
proof -
  have 1: "quiet (sess st) (sess (final_state
     (case mark_seen r (insert_and_commit (tbl_name t) st) of Inl x \<Rightarrow> Inl x
      | Inr st1 \<Rightarrow> Inr (append_row (tbl_name t) r st1))))"
    using quiet_insert_and_commit quiet_after_mark_seen by (rule quiet_trans)
  show ?thesis
    unfolding resolve_row_def Let_def
    using 1 quiet_after_mark_seen [where st = st and r = r and n = "tbl_name t"]
      quiet_append_row [where st = st and n = "tbl_name t" and r = r]
    by (auto simp: quiet_refl split: sum.splits)
qed

lemma quiet_process_row: "quiet (sess st) (sess (final_state (process_row t cn csvs st)))"
  by (simp add: process_row_def quiet_resolve_row quiet_refl split: sum.splits)

lemma quiet_load_rows: "quiet (sess st) (sess (final_state (load_rows t cn rows st)))"
proof (induction rows arbitrary: st)
  case Nil
  show ?case by (simp add: quiet_refl)
next
  case (Cons csvs rows)
  note q = quiet_process_row [of st t cn csvs]
  show ?case
  proof (cases "process_row t cn csvs st")
    case (Inl x)
    with q show ?thesis by (cases x) simp
  next
    case (Inr st')
    with q Cons.IH [of st'] show ?thesis by (auto intro: quiet_trans)
  qed
qed

lemma quiet_replay_deferred: "quiet (sess st) (sess (final_state (replay_deferred n ds st)))"
proof (induction n ds st rule: replay_deferred.induct)
  case (1 n st)
  show ?case by (simp add: quiet_refl)
next
  case (2 n row_data foreign_ids rest st)
  let ?st1 = "st\<lparr>sess := (sess st)\<lparr>trace := trace (sess st) @ [Execute_one n row_data]\<rparr>\<rparr>"
  have q1: "quiet (sess st) (sess ?st1)"
    by (simp add: quiet_def dropped_append created_append)
  show ?case
  proof (cases "all_seen (seen_ids st) foreign_ids")
    case False
    then show ?thesis by (simp add: quiet_refl)
  next
    case True
    from mark_seen_cases [of row_data ?st1] show ?thesis
    proof
      assume "\<exists>e. mark_seen row_data ?st1 = Inl (e, ?st1)"
      then show ?thesis using True q1 by (auto simp: Let_def)
    next
      assume "\<exists>i. mark_seen row_data ?st1 = Inr (?st1\<lparr>seen_ids := insert i (seen_ids ?st1)\<rparr>)"
      then obtain i where m: "mark_seen row_data ?st1 = Inr (?st1\<lparr>seen_ids := insert i (seen_ids ?st1)\<rparr>)" ..
      from "2.IH" [OF _ refl m] True
      have "quiet (sess ?st1) (sess (final_state (replay_deferred n rest (?st1\<lparr>seen_ids := insert i (seen_ids ?st1)\<rparr>))))"
        by simp
      with q1 have "quiet (sess st) (sess (final_state (replay_deferred n rest (?st1\<lparr>seen_ids := insert i (seen_ids ?st1)\<rparr>))))"
        by (rule quiet_trans)
      with True m show ?thesis by (simp add: Let_def)
    qed
  qed
qed

lemma quiet_load_csv: "quiet s (sess (final_state (load_csv t lines s)))"
proof (cases lines)
  case Nil
  then show ?thesis by (simp add: load_csv_def start_state_def quiet_refl)
next
  case (Cons header rows)
  show ?thesis
  proof (cases "header_names header")
    case (Inl e)
    with Cons show ?thesis by (simp add: load_csv_def start_state_def quiet_refl)
  next
    case (Inr cn)
    have q1: "quiet s (sess (final_state (load_rows t cn rows (start_state s))))"
      using quiet_load_rows [of "start_state s" t cn rows] by (simp add: start_state_def)
    show ?thesis
    proof (cases "load_rows t cn rows (start_state s)")
      case (Inl x)
      with q1 Cons Inr show ?thesis by (cases x) (simp add: load_csv_def)
    next
      case st: (Inr st)
      let ?st1 = "insert_and_commit (tbl_name t) st"
      from q1 st have "quiet s (sess st)" by simp
      then have q2: "quiet s (sess ?st1)" using quiet_insert_and_commit by (rule quiet_trans)
      have q3: "quiet s (sess (final_state (replay_deferred (tbl_name t) (deferred_rows ?st1) ?st1)))"
        using q2 quiet_replay_deferred by (rule quiet_trans)
      show ?thesis
      proof (cases "replay_deferred (tbl_name t) (deferred_rows ?st1) ?st1")
        case (Inl x)
        with q3 Cons Inr st show ?thesis by (cases x) (simp add: load_csv_def Let_def)
      next
        case (Inr st2)
        with q3 have "quiet s (commit (sess st2))"
          by (simp add: quiet_def commit_def dropped_append created_append)
        with Cons \<open>header_names header = Inr cn\<close> st Inr show ?thesis
          by (simp add: load_csv_def Let_def)
      qed
    qed
  qed
qed

lemma print_start_fields:
  "trace (print_start verbose thing s) = trace s" "opened (print_start verbose thing s) = opened s"
  by (simp_all add: print_start_def Let_def)

lemma print_done_fields:
  "trace (print_done verbose msg s) = trace s" "opened (print_done verbose msg s) = opened s"
  by (simp_all add: print_done_def)

lemma load_table_events:
  "dropped (trace (final_state (load_table verbose fs directory t s))) = dropped (trace s)
   \<and> created (trace (final_state (load_table verbose fs directory t s))) = created (trace s)
   \<and> opened (final_state (load_table verbose fs directory t s)) = opened s @ [csv_path directory (tbl_name t)]"
proof -
  let ?s1 = "(print_start verbose (tbl_name t) s)\<lparr>opened := opened (print_start verbose (tbl_name t) s) @ [csv_path directory (tbl_name t)]\<rparr>"
  have s1: "dropped (trace ?s1) = dropped (trace s)" "created (trace ?s1) = created (trace s)"
    "opened ?s1 = opened s @ [csv_path directory (tbl_name t)]"
    by (simp_all add: print_start_fields)
  show ?thesis
  proof (cases "fs (csv_path directory (tbl_name t))")
    case None
    then show ?thesis using s1 by (simp add: load_table_def Let_def print_done_fields)
  next
    case (Some lines)
    note q = quiet_load_csv [of ?s1 t lines]
    show ?thesis
    proof (cases "load_csv t lines ?s1")
      case (Inl x)
      with q s1 Some show ?thesis by (cases x) (simp add: load_table_def Let_def quiet_def)
    next
      case (Inr st)
      with q s1 Some show ?thesis by (simp add: load_table_def Let_def quiet_def print_done_fields)
    qed
  qed
qed

lemma load_tables_events:
  "dropped (trace (final_state (load_tables verbose fs directory ts s))) = dropped (trace s)
   \<and> created (trace (final_state (load_tables verbose fs directory ts s))) = created (trace s)
   \<and> prefix (opened (final_state (load_tables verbose fs directory ts s)))
        (opened s @ map (\<lambda>t. csv_path directory (tbl_name t)) ts)
   \<and> (\<forall>s'. load_tables verbose fs directory ts s = Inr s' \<longrightarrow>
        opened s' = opened s @ map (\<lambda>t. csv_path directory (tbl_name t)) ts)"
proof (induction ts arbitrary: s)
  case Nil
  show ?case by simp
next
  case (Cons t ts)
  note e = load_table_events [of verbose fs directory t s]
  show ?case
  proof (cases "load_table verbose fs directory t s")
    case (Inl x)
    with e show ?thesis by (cases x) simp
  next
    case (Inr s1)
    with e Cons.IH [of s1] show ?thesis by simp
  qed
qed

lemma foldl_drop_table:
  "trace (foldl drop_table s ts) = trace s @ map (\<lambda>t. Drop (tbl_name t)) ts
   \<and> opened (foldl drop_table s ts) = opened s \<and> stdout (foldl drop_table s ts) = stdout s"
  by (induction ts arbitrary: s) (simp_all add: drop_table_def)

lemma foldl_create_table:
  "trace (foldl create_table s ts) = trace s @ map (\<lambda>t. Create (tbl_name t)) ts
   \<and> opened (foldl create_table s ts) = opened s \<and> stdout (foldl create_table s ts) = stdout s"
  by (induction ts arbitrary: s) (simp_all add: create_table_def)

lemma dropped_map_Drop: "dropped (map (\<lambda>t. Drop (f t)) ts) = map f ts"
  by (induction ts) simp_all

lemma created_map_Drop: "created (map (\<lambda>t. Drop (f t)) ts) = []"
  by (induction ts) simp_all

lemma dropped_map_Create: "dropped (map (\<lambda>t. Create (f t)) ts) = []"
  by (induction ts) simp_all

lemma created_map_Create: "created (map (\<lambda>t. Create (f t)) ts) = map f ts"
  by (induction ts) simp_all

text \<open>
  Claim C5: for the tables selected, \<open>load\<close> creates the tables in the order that
  \<open>sort_tables\<close> returns and opens their files in that order (all of them when no table
  fails, a first part of them otherwise); when dropping is requested it drops the tables
  in exactly the reverse of that order, and otherwise drops none.
\<close>

theorem drop_order_reverses_load_order:
  assumes "selected_tables metadata tables = Inr selected"
  shows "dropped (trace (final_state (load metadata sort_tables fs data_dir s tables directory drop_tables verbose)))
      = dropped (trace s) @ (if drop_tables then rev (map tbl_name (sort_tables selected)) else [])
    \<and> created (trace (final_state (load metadata sort_tables fs data_dir s tables directory drop_tables verbose)))
      = created (trace s) @ map tbl_name (sort_tables selected)
    \<and> prefix (opened (final_state (load metadata sort_tables fs data_dir s tables directory drop_tables verbose)))
        (opened s @ map (\<lambda>t. csv_path (effective_directory data_dir directory) (tbl_name t)) (sort_tables selected))
    \<and> (\<forall>s'. load metadata sort_tables fs data_dir s tables directory drop_tables verbose = Inr s' \<longrightarrow>
        opened s' = opened s @ map (\<lambda>t. csv_path (effective_directory data_dir directory) (tbl_name t)) (sort_tables selected))"
proof -
  let ?objs = "sort_tables selected"
  let ?s1 = "if drop_tables then
               print_done verbose ''ok''
                 (foldl drop_table (print_start verbose ''Dropping tables'' s) (rev ?objs))
             else s"
  let ?s2 = "foldl create_table ?s1 ?objs"
  have l: "load metadata sort_tables fs data_dir s tables directory drop_tables verbose =
      load_tables verbose fs (effective_directory data_dir directory) ?objs ?s2"
    using assms by (simp add: load_def Let_def)
  have d1: "dropped (trace ?s1) = dropped (trace s) @ (if drop_tables then rev (map tbl_name ?objs) else [])"
    by (simp add: print_done_fields print_start_fields foldl_drop_table dropped_append
        dropped_map_Drop rev_map)
  have c1: "created (trace ?s1) = created (trace s)"
    by (simp add: print_done_fields print_start_fields foldl_drop_table created_append
        created_map_Drop)
  have o1: "opened ?s1 = opened s"
    by (simp add: print_done_fields print_start_fields foldl_drop_table)
  have d2: "dropped (trace ?s2) = dropped (trace s) @ (if drop_tables then rev (map tbl_name ?objs) else [])"
    using d1 by (simp only: foldl_create_table dropped_append dropped_map_Create append_Nil2)
  have c2: "created (trace ?s2) = created (trace s) @ map tbl_name ?objs"
    using c1 by (simp only: foldl_create_table created_append created_map_Create)
  have o2: "opened ?s2 = opened s"
    using o1 by (simp only: foldl_create_table)
  from load_tables_events [of verbose fs "effective_directory data_dir directory" ?objs ?s2]
  show ?thesis
    unfolding l d2 c2 o2 by blast
qed

theorem drop_order_reverses_load_order_witness:
  "dropped (trace (final_state (load [family, item] rev Map.empty ''data'' empty_session [] None True False)))
     = rev (map tbl_name (rev [family, item]))
   \<and> created (trace (final_state (load [family, item] rev Map.empty ''data'' empty_session [] None True False)))
     = map tbl_name (rev [family, item])"
proof -
  have a: "selected_tables [family, item] [] = Inr [family, item]"
    by (simp add: selected_tables_def select_table_names_def table_named_def family_def item_def)
  have b: "dropped (trace empty_session) = []" "created (trace empty_session) = []"
    by (simp_all add: empty_session_def)
  from drop_order_reverses_load_order [OF a, where s = empty_session and drop_tables = True
      and sort_tables = rev and fs = Map.empty and data_dir = "''data''" and directory = None
      and verbose = False]
  show ?thesis by (simp add: b)
qed

section \<open>\<open>dump\<close>\<close>

lemma select_table_names_subset:
  "select_table_names metadata tables = Inr names \<Longrightarrow> set names \<subseteq> tbl_name ` set metadata"
  by (auto simp: select_table_names_def split: if_splits sum.splits)

lemma table_named_in: "n \<in> tbl_name ` set metadata \<Longrightarrow> \<exists>t. table_named metadata n = Some t \<and> t \<in> set metadata \<and> tbl_name t = n"
  unfolding table_named_def
  by (induction metadata) auto

lemma dump_tables_all:
  assumes "set names \<subseteq> tbl_name ` set metadata"
  shows "\<exists>d'. dump_tables sql_key db metadata verbose directory names d = Inr d'
    \<and> written d' = written d @
        map (\<lambda>n. (csv_path directory n, dump_lines sql_key db (the (table_named metadata n)))) names"
  using assms
proof (induction names arbitrary: d)
  case Nil
  show ?case by simp
next
  case (Cons n names)
  from Cons.prems table_named_in [of n metadata] obtain t where t: "table_named metadata n = Some t" by auto
  let ?d1 = "d\<lparr>printed := print_start verbose n (printed d)\<rparr>"
  let ?d2 = "?d1\<lparr>written := written ?d1 @ [(csv_path directory n, dump_lines sql_key db t)]\<rparr>"
  let ?d3 = "?d2\<lparr>printed := print_done verbose ''ok'' (printed ?d2)\<rparr>"
  from Cons.prems have "set names \<subseteq> tbl_name ` set metadata" by simp
  from Cons.IH [OF this, of ?d3] t show ?case by (simp add: Let_def)
qed

lemma query_ordered_sorted:
  "sorted (map (\<lambda>row. sql_key (primary_key_values t row)) (query_ordered sql_key db t))"
  by (simp add: query_ordered_def)

lemma query_ordered_mset: "mset (query_ordered sql_key db t) = mset (db (tbl_name t))"
  by (simp add: query_ordered_def)

lemma filter_eq_mset_cong:
  "mset as = mset bs \<Longrightarrow> filter ((=) k) as = filter ((=) k) bs"
  by (simp add: replicate_count_mset_eq_filter_eq [symmetric])

lemma filter_key_eq:
  assumes "inj_on f A" and "k \<in> A" and "set zs \<subseteq> A"
  shows "filter (\<lambda>x. f k = f x) zs = filter ((=) k) zs"
  using assms by (intro filter_cong) (auto dest: inj_onD)

lemma sort_key_cong_mset:
  assumes "mset ys = mset xs" and "inj_on f (set xs)"
  shows "sort_key f ys = sort_key f xs"
proof (rule properties_for_sort_key [symmetric])
  have s: "set ys = set xs" using assms(1) by (metis set_mset_mset)
  show "mset (sort_key f ys) = mset xs" using assms(1) by simp
  show "sorted (map f (sort_key f ys))" by simp
  fix k assume "k \<in> set (sort_key f ys)"
  then have k: "k \<in> set xs" using s by simp
  have "filter (\<lambda>x. f k = f x) (sort_key f ys) = filter ((=) k) (sort_key f ys)"
    using assms(2) k by (rule filter_key_eq) (simp add: s)
  moreover have "filter ((=) k) (sort_key f ys) = filter ((=) k) xs"
    by (rule filter_eq_mset_cong) (simp add: assms(1))
  moreover have "filter (\<lambda>x. f k = f x) xs = filter ((=) k) xs"
    using assms(2) k by (rule filter_key_eq) simp
  ultimately show "filter (\<lambda>x. f k = f x) (sort_key f ys) = filter (\<lambda>x. f k = f x) xs"
    by simp
qed

lemma sort_cong_mset: "mset ys = mset xs \<Longrightarrow> sort ys = sort (xs :: 'a::linorder list)"
  by (rule properties_for_sort [symmetric]) simp_all

lemma table_named_cong:
  assumes "set metadata' = set metadata" and "distinct (map tbl_name metadata)"
    and "n \<in> tbl_name ` set metadata"
  shows "table_named metadata' n = table_named metadata n"
proof -
  from table_named_in [OF assms(3)] obtain t where
    t: "table_named metadata n = Some t" "t \<in> set metadata" "tbl_name t = n" by blast
  from assms(1,3) have "n \<in> tbl_name ` set metadata'" by simp
  from table_named_in [OF this] obtain t' where
    t': "table_named metadata' n = Some t'" "t' \<in> set metadata'" "tbl_name t' = n" by blast
  from assms(2) have "inj_on tbl_name (set metadata)" by (simp add: distinct_map)
  with t t' assms(1) have "t' = t" by (auto dest: inj_onD)
  with t t' show ?thesis by simp
qed

lemma select_table_names_cong:
  assumes "mset metadata' = mset metadata"
  shows "(\<exists>e. select_table_names metadata' tables = Inl e \<and> select_table_names metadata tables = Inl e)
    \<or> (\<exists>names' names. select_table_names metadata' tables = Inr names'
          \<and> select_table_names metadata tables = Inr names \<and> mset names' = mset names)"
proof -
  have m: "mset (map tbl_name metadata') = mset (map tbl_name metadata)"
    using assms by simp
  then have "mset (filter P (map tbl_name metadata')) = mset (filter P (map tbl_name metadata))" for P
    by (metis mset_filter)
  with m show ?thesis
    by (auto simp: select_table_names_def split: sum.splits)
qed

lemma dump_lines_cong:
  assumes "mset (db' (tbl_name t)) = mset (db (tbl_name t))"
    and "inj_on (\<lambda>row. sql_key (primary_key_values t row)) (set (db (tbl_name t)))"
  shows "dump_lines sql_key db' t = dump_lines sql_key db t"
  using sort_key_cong_mset [OF assms]
  by (simp add: dump_lines_def query_ordered_def)

text \<open>
  Claim C7: for every selection \<open>dump\<close> returns; it writes one file per selected table, in
  the sorted order of the table names; each file holds the line of column names, then one
  line per row of the table in ascending order of the primary key, every value encoded by
  \<open>encode_value\<close>; and what is written does not depend on the order in which the
  dictionary lists the tables or the database stores the rows (primary keys being
  unique), so that two dumps of the same database are identical.
\<close>

theorem dump_sorted_and_deterministic:
  assumes "select_table_names metadata tables = Inr names"
  shows "(\<exists>d. dump metadata sql_key db data_dir s tables directory verbose = Inr d
        \<and> written d = map (\<lambda>n. (csv_path (effective_directory data_dir directory) n,
                                 dump_lines sql_key db (the (table_named metadata n)))) (sort names))
    \<and> sorted (sort names) \<and> mset (sort names) = mset names
    \<and> (\<forall>t. dump_lines sql_key db t =
            map col_name (tbl_columns t)
            # map (\<lambda>row. map (\<lambda>col. encode_value (row col)) (map col_name (tbl_columns t)))
                (query_ordered sql_key db t)
          \<and> sorted (map (\<lambda>row. sql_key (primary_key_values t row)) (query_ordered sql_key db t))
          \<and> mset (query_ordered sql_key db t) = mset (db (tbl_name t)))
    \<and> (mset metadata' = mset metadata \<and> distinct (map tbl_name metadata)
        \<and> (\<forall>n. mset (db' n) = mset (db n))
        \<and> (\<forall>t\<in>set metadata. inj_on (\<lambda>row. sql_key (primary_key_values t row)) (set (db (tbl_name t))))
        \<longrightarrow> written (final_state (dump metadata' sql_key db' data_dir s tables directory verbose))
          = written (final_state (dump metadata sql_key db data_dir s tables directory verbose)))"
proof -
  let ?dir = "effective_directory data_dir directory"
  let ?d0 = "\<lparr>printed = s, written = []\<rparr>"
  let ?out = "\<lambda>md db. map (\<lambda>n. (csv_path ?dir n, dump_lines sql_key db (the (table_named md n)))) (sort names)"
  have sub: "set (sort names) \<subseteq> tbl_name ` set metadata"
    using select_table_names_subset [OF assms] by simp
  have run: "\<exists>d. dump metadata sql_key db data_dir s tables directory verbose = Inr d
        \<and> written d = ?out metadata db"
    using dump_tables_all [OF sub, of sql_key db verbose ?dir ?d0] assms
    by (simp add: dump_def Let_def)
  have lines: "dump_lines sql_key db t =
            map col_name (tbl_columns t)
            # map (\<lambda>row. map (\<lambda>col. encode_value (row col)) (map col_name (tbl_columns t)))
                (query_ordered sql_key db t)
          \<and> sorted (map (\<lambda>row. sql_key (primary_key_values t row)) (query_ordered sql_key db t))
          \<and> mset (query_ordered sql_key db t) = mset (db (tbl_name t))" for t
    by (simp add: dump_lines_def Let_def query_ordered_sorted query_ordered_mset)
  have det: "written (final_state (dump metadata' sql_key db' data_dir s tables directory verbose))
          = written (final_state (dump metadata sql_key db data_dir s tables directory verbose))"
    if h: "mset metadata' = mset metadata" "distinct (map tbl_name metadata)"
      "\<forall>n. mset (db' n) = mset (db n)"
      "\<forall>t\<in>set metadata. inj_on (\<lambda>row. sql_key (primary_key_values t row)) (set (db (tbl_name t)))"
  proof -
    have sm: "set metadata' = set metadata" using h(1) by (metis set_mset_mset)
    from select_table_names_cong [OF h(1), of tables] assms obtain names' where
      n': "select_table_names metadata' tables = Inr names'" "mset names' = mset names"
      by auto
    have srt: "sort names' = sort names" using n'(2) by (rule sort_cong_mset)
    have sub': "set (sort names) \<subseteq> tbl_name ` set metadata'" using sub sm by simp
    have "\<exists>d. dump metadata' sql_key db' data_dir s tables directory verbose = Inr d
        \<and> written d = ?out metadata' db'"
      using dump_tables_all [OF sub', of sql_key db' verbose ?dir ?d0] n'(1) srt
      by (simp add: dump_def Let_def)
    moreover have "?out metadata' db' = ?out metadata db"
    proof (rule map_cong [OF refl])
      fix n assume "n \<in> set (sort names)"
      with sub have n: "n \<in> tbl_name ` set metadata" by auto
      from table_named_in [OF n] obtain t where
        t: "table_named metadata n = Some t" "t \<in> set metadata" "tbl_name t = n" by blast
      have "table_named metadata' n = table_named metadata n"
        using sm h(2) n by (rule table_named_cong)
      moreover have "dump_lines sql_key db' t = dump_lines sql_key db t"
        using h(3,4) t(2) by (intro dump_lines_cong) auto
      ultimately show "(csv_path ?dir n, dump_lines sql_key db' (the (table_named metadata' n)))
        = (csv_path ?dir n, dump_lines sql_key db (the (table_named metadata n)))"
        using t(1) by simp
    qed
    ultimately show ?thesis using run by auto
  qed
  have srt: "sorted (sort names) \<and> mset (sort names) = mset names" by simp
  from run srt lines det show ?thesis by blast
qed

theorem dump_sorted_and_deterministic_witness:
  "written (final_state (dump [item, family] int_key example_db ''data'' empty_session [] None False))
     = [(''data/family.csv'', [[''id'', ''parent''], [''1'', ''''], [''2'', ''1'']]),
        (''data/item.csv'', [[''name'']])]
   \<and> written (final_state (dump [family, item] int_key (\<lambda>n. rev (example_db n)) ''data'' empty_session [] None False))
     = written (final_state (dump [item, family] int_key example_db ''data'' empty_session [] None False))"
proof -
  have a: "select_table_names [item, family] [] = Inr [''item'', ''family'']"
    by (simp add: select_table_names_def item_def family_def)
  have srt: "sort [''item'', ''family''] = [''family'', ''item'']"
    by code_simp
  have tn: "the (table_named [item, family] ''family'') = family" "the (table_named [item, family] ''item'') = item"
    by (simp_all add: table_named_def item_def family_def)
  have enc: "encode_value (PInt 1) = ''1''" "encode_value (PInt 2) = ''2''" "encode_value PNone = ''''"
    by code_simp+
  have q: "query_ordered int_key example_db family = rev family_rows" "query_ordered int_key example_db item = []"
    by (simp_all add: query_ordered_def example_db_def family_rows_def family_def item_def
        primary_key_values_def int_key_def)
  have l: "dump_lines int_key example_db family = [[''id'', ''parent''], [''1'', ''''], [''2'', ''1'']]"
    "dump_lines int_key example_db item = [[''name'']]"
    unfolding dump_lines_def q
    by (simp_all add: family_rows_def family_def item_def enc Let_def)
  have h1: "mset [family, item] = mset [item, family]" by simp
  have h2: "distinct (map tbl_name [item, family])" by (simp add: item_def family_def)
  have h3: "\<forall>n. mset (rev (example_db n)) = mset (example_db n)" by simp
  have h4: "\<forall>t\<in>set [item, family]. inj_on (\<lambda>row. int_key (primary_key_values t row)) (set (example_db (tbl_name t)))"
    by (auto simp: example_db_def family_rows_def family_def item_def primary_key_values_def
        int_key_def inj_on_def)
  note t = dump_sorted_and_deterministic [OF a, where sql_key = int_key and db = example_db
      and data_dir = "''data''" and s = empty_session and directory = None and verbose = False
      and metadata' = "[family, item]" and db' = "\<lambda>n. rev (example_db n)"]
  from t obtain d where
    d: "dump [item, family] int_key example_db ''data'' empty_session [] None False = Inr d"
      "written d = map (\<lambda>n. (csv_path (effective_directory ''data'' None) n,
          dump_lines int_key example_db (the (table_named [item, family] n)))) (sort [''item'', ''family''])"
    by blast
  have 1: "written (final_state (dump [item, family] int_key example_db ''data'' empty_session [] None False))
     = [(''data/family.csv'', [[''id'', ''parent''], [''1'', ''''], [''2'', ''1'']]),
        (''data/item.csv'', [[''name'']])]"
    by (simp add: d srt tn l csv_path_def effective_directory_def)
  from t h1 h2 h3 h4 have 2: "written (final_state (dump [family, item] int_key (\<lambda>n. rev (example_db n)) ''data'' empty_session [] None False))
     = written (final_state (dump [item, family] int_key example_db ''data'' empty_session [] None False))"
    by blast
  from 1 2 show ?thesis by blast
qed

section \<open>Selecting tables by wildcard\<close>

subsection \<open>The path functions\<close>

lemma posixpath_examples:
  "path_split ''data/csv/pokemon.csv'' = (''data/csv'', ''pokemon.csv'')"
  "path_split ''pokemon.csv'' = ([], ''pokemon.csv'')"
  "path_splitext ''pokemon.csv'' = (''pokemon'', ''.csv'')"
  "path_splitext ''pokemon.tar.gz'' = (''pokemon.tar'', ''.gz'')"
  "path_splitext ''.hidden'' = (''.hidden'', [])"
  by code_simp+

lemma rfind_from_absent: "c \<notin> set s \<Longrightarrow> rfind_from c s i found = found"
  by (induction s arbitrary: i found) auto

lemma rfind_from_present:
  "c \<in> set s \<Longrightarrow>
   i \<le> rfind_from c s i found \<and> rfind_from c s i found < i + int (length s)
   \<and> s ! nat (rfind_from c s i found - i) = c
   \<and> c \<notin> set (drop (Suc (nat (rfind_from c s i found - i))) s)"
proof (induction s arbitrary: i found)
  case Nil
  then show ?case by simp
next
  case (Cons x xs)
  show ?case
  proof (cases "c \<in> set xs")
    case True
    let ?j = "rfind_from c xs (i + 1) (if x = c then i else found)"
    from Cons.IH [OF True, of "i + 1" "if x = c then i else found"]
    have j: "i + 1 \<le> ?j" "?j < i + 1 + int (length xs)" "xs ! nat (?j - (i + 1)) = c"
      "c \<notin> set (drop (Suc (nat (?j - (i + 1)))) xs)"
      by simp_all
    from j(1) have n: "nat (?j - i) = Suc (nat (?j - (i + 1)))" by simp
    show ?thesis using j by (simp add: n)
  next
    case False
    with Cons.prems have "x = c" by simp
    with False show ?thesis by (simp add: rfind_from_absent)
  qed
qed

lemma rfind_absent: "c \<notin> set s \<Longrightarrow> rfind c s = - 1"
  by (simp add: rfind_def rfind_from_absent)

lemma rfind_present:
  "c \<in> set s \<Longrightarrow> 0 \<le> rfind c s \<and> rfind c s < int (length s) \<and> s ! nat (rfind c s) = c
     \<and> c \<notin> set (drop (Suc (nat (rfind c s))) s)"
  using rfind_from_present [of c s 0 "- 1"] by (simp add: rfind_def)

lemma no_char_after_rfind: "c \<notin> set (drop (nat (rfind c s + 1)) s)"
proof (cases "c \<in> set s")
  case True
  from rfind_present [OF True] have "nat (rfind c s + 1) = Suc (nat (rfind c s))"
    by (simp add: nat_add_distrib)
  with rfind_present [OF True] show ?thesis by simp
next
  case False
  then show ?thesis by (simp add: rfind_absent)
qed

lemma path_split_tail:
  "CHR ''/'' \<notin> set (snd (path_split p)) \<and> (\<exists>d. p = d @ snd (path_split p))"
proof -
  have "snd (path_split p) = drop (nat (rfind CHR ''/'' p + 1)) p"
    by (simp add: path_split_def Let_def)
  moreover have "p = take (nat (rfind CHR ''/'' p + 1)) p @ drop (nat (rfind CHR ''/'' p + 1)) p"
    by simp
  ultimately show ?thesis using no_char_after_rfind [of "CHR ''/''" p] by metis
qed

lemma path_splitext_parts:
  "fst (path_splitext f) @ snd (path_splitext f) = f
   \<and> (snd (path_splitext f) = []
       \<or> hd (snd (path_splitext f)) = CHR ''.'' \<and> CHR ''.'' \<notin> set (tl (snd (path_splitext f))))"
proof (cases "snd (path_splitext f) = []")
  case True
  then show ?thesis by (auto simp: path_splitext_def Let_def split: if_splits)
next
  case False
  let ?d = "rfind CHR ''.'' f"
  from False have s: "path_splitext f = (take (nat ?d) f, drop (nat ?d) f)" and gt: "?d > rfind CHR ''/'' f"
    by (auto simp: path_splitext_def Let_def split: if_splits)
  have "CHR ''.'' \<in> set f"
  proof (rule ccontr)
    assume "CHR ''.'' \<notin> set f"
    then have "?d = - 1" by (rule rfind_absent)
    moreover have "- 1 \<le> rfind CHR ''/'' f"
      using rfind_present [of "CHR ''/''" f] rfind_absent [of "CHR ''/''" f] by (cases "CHR ''/'' \<in> set f") auto
    ultimately show False using gt by simp
  qed
  from rfind_present [OF this] have d: "0 \<le> ?d" "nat ?d < length f" "f ! nat ?d = CHR ''.''"
    "CHR ''.'' \<notin> set (drop (Suc (nat ?d)) f)"
    by auto
  have dr: "drop (nat ?d) f = CHR ''.'' # drop (Suc (nat ?d)) f"
    using d(2,3) Cons_nth_drop_Suc [of "nat ?d" f] by metis
  have "fst (path_splitext f) @ snd (path_splitext f) = f"
    by (simp add: s)
  moreover have "hd (snd (path_splitext f)) = CHR ''.''"
    "CHR ''.'' \<notin> set (tl (snd (path_splitext f)))"
    using d(4) by (simp_all add: s dr)
  ultimately show ?thesis by blast
qed

lemma rfind_from_append:
  "rfind_from c (a @ b) i found = rfind_from c b (i + int (length a)) (rfind_from c a i found)"
  by (induction a arbitrary: i found) (simp_all add: add.assoc)

lemma rfind_last: "c \<notin> set e \<Longrightarrow> rfind c (a @ c # e) = int (length a)"
  by (simp add: rfind_def rfind_from_append rfind_from_absent)

text \<open>
  What the two path functions return, on every path: \<open>split\<close> gives as second part what
  follows the last slash; \<open>splitext\<close>, on a name without slash, cuts at the last dot
  unless only dots precede it.
\<close>

lemma path_split_last:
  assumes "d = [] \<or> last d = CHR ''/''" and "CHR ''/'' \<notin> set f"
  shows "snd (path_split (d @ f)) = f"
proof (cases "d = []")
  case True
  with assms(2) show ?thesis by (simp add: path_split_def Let_def rfind_absent)
next
  case False
  with assms(1) obtain d' where d: "d = d' @ [CHR ''/'']"
    by (metis append_butlast_last_id)
  have "rfind CHR ''/'' (d @ f) = int (length d')"
    using rfind_last [OF assms(2), of d'] by (simp add: d)
  moreover have "nat (int (length d') + 1) = length d" by (simp add: d)
  ultimately show ?thesis by (simp add: path_split_def Let_def)
qed

lemma path_splitext_no_dot:
  assumes "CHR ''/'' \<notin> set f" and "CHR ''.'' \<notin> set f"
  shows "path_splitext f = (f, [])"
  using assms by (simp add: path_splitext_def Let_def rfind_absent)

lemma path_splitext_last_dot:
  assumes "CHR ''/'' \<notin> set (a @ e)" and "CHR ''.'' \<notin> set e"
  shows "path_splitext (a @ CHR ''.'' # e) =
     (if \<exists>c\<in>set a. c \<noteq> CHR ''.'' then (a, CHR ''.'' # e) else (a @ CHR ''.'' # e, []))"
proof -
  have s: "rfind CHR ''/'' (a @ CHR ''.'' # e) = - 1"
    using assms(1) by (simp add: rfind_absent)
  have d: "rfind CHR ''.'' (a @ CHR ''.'' # e) = int (length a)"
    using assms(2) by (rule rfind_last)
  show ?thesis
    by (simp add: path_splitext_def Let_def s d list_ex_iff)
qed

subsection \<open>The unicode join\<close>

lemma is_ascii_Cons: "is_ascii (c # s) \<longleftrightarrow> (of_char c :: nat) < 128 \<and> is_ascii s"
  by (simp add: is_ascii_def)

lemma is_ascii_char_to_regex: "is_ascii (wildcard_char_to_regex c) \<longleftrightarrow> (of_char c :: nat) < 128"
  by (simp add: wildcard_char_to_regex_def re_escape_def escape_char_def is_ascii_def backslash_def)

lemma is_ascii_pieces: "list_all is_ascii (map wildcard_char_to_regex g) = is_ascii g"
  by (induction g) (simp_all add: is_ascii_char_to_regex is_ascii_Cons, simp add: is_ascii_def)

lemma wildcard_glob_to_regex_cases:
  "wildcard_glob_to_regex p =
     (if is_ascii (glob_table_name p) then Inr (concat (map wildcard_char_to_regex (glob_table_name p)))
      else Inl UnicodeDecodeError)"
  by (simp add: wildcard_glob_to_regex_def unicode_join_def is_ascii_pieces)

lemma map_raising_ascii:
  "\<forall>p\<in>set strings. is_ascii (glob_table_name p) \<Longrightarrow>
   map_raising wildcard_glob_to_regex strings
     = Inr (map (\<lambda>g. concat (map wildcard_char_to_regex g)) (map glob_table_name strings))"
  by (induction strings) (simp_all add: wildcard_glob_to_regex_cases)

lemma map_raising_not_ascii:
  "\<exists>p\<in>set strings. \<not> is_ascii (glob_table_name p) \<Longrightarrow>
   map_raising wildcard_glob_to_regex strings = Inl UnicodeDecodeError"
proof (induction strings)
  case Nil
  then show ?case by simp
next
  case (Cons p strings)
  show ?case
  proof (cases "is_ascii (glob_table_name p)")
    case True
    with Cons show ?thesis by (simp add: wildcard_glob_to_regex_cases)
  next
    case False
    then show ?thesis by (simp add: wildcard_glob_to_regex_cases)
  qed
qed

subsection \<open>Compiling the translation of the globs\<close>

lemma alphanum_not_special:
  assumes "c \<in> set alphanum"
  shows "c \<noteq> backslash" "c \<noteq> CHR ''.''" "c \<noteq> CHR ''*''" "c \<noteq> CHR ''?''" "c \<noteq> CHR ''|''"
    "c \<noteq> CHR ''^''" "c \<noteq> CHR ''$''" "c \<noteq> CHR '')''" "c \<noteq> CHR ''(''" "c \<notin> set ''+{}[]''"
  using assms by (auto simp: alphanum_def backslash_def)

lemma zero_alphanum: "CHR ''0'' \<in> set alphanum"
  by (simp add: alphanum_def)

lemma tokenize_alphanum:
  "c \<in> set alphanum \<Longrightarrow> tokenize (c # rest) = map_option ((@) [TAtom (Lit c)]) (tokenize rest)"
  using alphanum_not_special [of c] by (cases "tokenize rest") simp_all

lemma tokenize_escaped:
  "d \<notin> set alphanum \<Longrightarrow> tokenize (backslash # d # rest) = map_option ((@) [TAtom (Lit d)]) (tokenize rest)"
  using zero_alphanum by (cases "tokenize rest") auto

lemma tokenize_nul:
  "tokenize (backslash # CHR ''0'' # CHR ''0'' # CHR ''0'' # rest) = map_option ((@) [TAtom (Lit (CHR 0x00))]) (tokenize rest)"
  by (cases "tokenize rest") simp_all

lemma tokenize_dot_star: "tokenize (CHR ''.'' # CHR ''*'' # rest) = map_option ((@) [TAtom Dot, TStar]) (tokenize rest)"
  by (cases "tokenize rest") (simp_all add: backslash_def)

lemma tokenize_dot_quest: "tokenize (CHR ''.'' # CHR ''?'' # rest) = map_option ((@) [TAtom Dot, TQuest]) (tokenize rest)"
  by (cases "tokenize rest") (simp_all add: backslash_def)

lemma tokenize_char:
  "tokenize (wildcard_char_to_regex c @ rest) = map_option ((@) (glob_tokens c)) (tokenize rest)"
proof -
  consider "c = CHR ''?''" | "c = CHR ''*''" | "c \<noteq> CHR ''?''" "c \<noteq> CHR ''*''" "c \<in> set alphanum"
    | "c \<noteq> CHR ''?''" "c \<noteq> CHR ''*''" "c \<notin> set alphanum" "c = CHR 0x00"
    | "c \<noteq> CHR ''?''" "c \<noteq> CHR ''*''" "c \<notin> set alphanum" "c \<noteq> CHR 0x00"
    by blast
  then show ?thesis
  proof cases
    case 1
    then have "wildcard_char_to_regex c = ''.?''" "glob_tokens c = [TAtom Dot, TQuest]"
      by (simp_all add: wildcard_char_to_regex_def glob_tokens_def)
    then show ?thesis
      by (simp only: append_Cons append_Nil tokenize_dot_quest)
  next
    case 2
    then have "wildcard_char_to_regex c = ''.*''" "glob_tokens c = [TAtom Dot, TStar]"
      by (simp_all add: wildcard_char_to_regex_def glob_tokens_def)
    then show ?thesis
      by (simp only: append_Cons append_Nil tokenize_dot_star)
  next
    case 3
    then have "wildcard_char_to_regex c = [c]" "glob_tokens c = [TAtom (Lit c)]"
      by (simp_all add: wildcard_char_to_regex_def glob_tokens_def re_escape_def escape_char_def)
    then show ?thesis using 3(3)
      by (simp only: append_Cons append_Nil tokenize_alphanum)
  next
    case 4
    then have "wildcard_char_to_regex c = [backslash, CHR ''0'', CHR ''0'', CHR ''0'']" "glob_tokens c = [TAtom (Lit (CHR 0x00))]"
      by (simp_all add: wildcard_char_to_regex_def glob_tokens_def re_escape_def escape_char_def)
    then show ?thesis
      by (simp only: append_Cons append_Nil tokenize_nul)
  next
    case 5
    then have "wildcard_char_to_regex c = [backslash, c]" "glob_tokens c = [TAtom (Lit c)]"
      by (simp_all add: wildcard_char_to_regex_def glob_tokens_def re_escape_def escape_char_def)
    then show ?thesis using 5(3)
      by (simp add: tokenize_escaped del: tokenize.simps)
  qed
qed

lemma tokenize_glob:
  "tokenize (concat (map wildcard_char_to_regex g) @ rest)
     = map_option ((@) (concat (map glob_tokens g))) (tokenize rest)"
proof (induction g)
  case Nil
  show ?case by (simp add: option.map_ident)
next
  case (Cons c g)
  have "tokenize (concat (map wildcard_char_to_regex (c # g)) @ rest)
      = tokenize (wildcard_char_to_regex c @ (concat (map wildcard_char_to_regex g) @ rest))"
    by simp
  also have "\<dots> = map_option ((@) (glob_tokens c)) (map_option ((@) (concat (map glob_tokens g))) (tokenize rest))"
    by (simp only: tokenize_char Cons.IH)
  finally show ?case by (simp add: option.map_comp comp_def)
qed

lemma tokenize_close: "tokenize '')$'' = Some [TClose, TDollar]"
  by (simp add: backslash_def)

lemma tokenize_bar: "tokenize (CHR ''|'' # rest) = map_option ((#) TBar) (tokenize rest)"
  by (simp add: backslash_def)

lemma tokenize_alternatives:
  "gs \<noteq> [] \<Longrightarrow>
   tokenize (join ''|'' (map (\<lambda>g. concat (map wildcard_char_to_regex g)) gs) @ '')$'')
     = Some (alternatives_tokens gs)"
proof (induction gs rule: alternatives_tokens.induct)
  case 1
  then show ?case by simp
next
  case (2 g)
  have "tokenize (concat (map wildcard_char_to_regex g) @ '')$'')
      = map_option ((@) (concat (map glob_tokens g))) (Some [TClose, TDollar])"
    by (simp only: tokenize_glob tokenize_close)
  then show ?case by simp
next
  case (3 g h gs)
  let ?tr = "\<lambda>g. concat (map wildcard_char_to_regex g)"
  have "tokenize (join ''|'' (map ?tr (g # h # gs)) @ '')$'')
      = tokenize (?tr g @ CHR ''|'' # (join ''|'' (map ?tr (h # gs)) @ '')$''))"
    by simp
  also have "\<dots> = map_option ((@) (concat (map glob_tokens g)))
       (map_option ((#) TBar) (tokenize (join ''|'' (map ?tr (h # gs)) @ '')$'')))"
    by (simp only: tokenize_glob tokenize_bar)
  also have "\<dots> = Some (alternatives_tokens (g # h # gs))"
    using "3.IH" by simp
  finally show ?case .
qed

lemma tokenize_regex_string:
  assumes "gs \<noteq> []"
  shows "tokenize (regex_string (map (\<lambda>g. concat (map wildcard_char_to_regex g)) gs))
     = Some (TCaret # TOpen # alternatives_tokens gs)"
proof -
  let ?parts = "map (\<lambda>g. concat (map wildcard_char_to_regex g)) gs"
  have "tokenize (regex_string ?parts)
      = map_option (\<lambda>ts. TCaret # TOpen # ts) (tokenize (join ''|'' ?parts @ '')$''))"
    by (simp add: regex_string_def backslash_def option.map_comp comp_def)
  also have "\<dots> = map_option (\<lambda>ts. TCaret # TOpen # ts) (Some (alternatives_tokens gs))"
    using tokenize_alternatives [OF assms] by simp
  finally show ?thesis by simp
qed

lemma parse_one:
  "no_postfix ts \<Longrightarrow> parse_alternatives (TAtom a # ts) = add_item (One a) (parse_alternatives ts)"
proof (cases ts)
  case Nil
  then show ?thesis by simp
next
  case (Cons t ts')
  assume "no_postfix ts"
  with Cons show ?thesis by (cases t) (simp_all add: no_postfix_def)
qed

lemma no_postfix_glob_tokens: "no_postfix ts \<Longrightarrow> no_postfix (concat (map glob_tokens g) @ ts)"
  by (cases g) (simp_all add: no_postfix_def glob_tokens_def)

lemma parse_glob_char:
  "no_postfix ts \<Longrightarrow>
   parse_alternatives (glob_tokens c @ ts) = add_item (glob_item c) (parse_alternatives ts)"
  by (simp add: glob_tokens_def glob_item_def parse_one)

lemma parse_glob_tokens:
  "no_postfix ts \<Longrightarrow>
   parse_alternatives (concat (map glob_tokens g) @ ts)
     = foldr add_item (map glob_item g) (parse_alternatives ts)"
proof (induction g)
  case Nil
  show ?case by simp
next
  case (Cons c g)
  have "parse_alternatives (concat (map glob_tokens (c # g)) @ ts)
      = parse_alternatives (glob_tokens c @ (concat (map glob_tokens g) @ ts))"
    by simp
  also have "\<dots> = add_item (glob_item c) (parse_alternatives (concat (map glob_tokens g) @ ts))"
    using Cons.prems by (intro parse_glob_char no_postfix_glob_tokens)
  finally show ?case using Cons by simp
qed

lemma foldr_add_item:
  "foldr add_item items (Some (alt # alts)) = Some ((items @ alt) # alts)"
  by (induction items) simp_all

lemma parse_alternatives_tokens:
  "gs \<noteq> [] \<Longrightarrow> parse_alternatives (alternatives_tokens gs) = Some (map (map glob_item) gs)"
proof (induction gs rule: alternatives_tokens.induct)
  case 1
  then show ?case by simp
next
  case (2 g)
  have "no_postfix [TClose, TDollar]" by (simp add: no_postfix_def)
  from parse_glob_tokens [OF this, of g] show ?case by (simp add: foldr_add_item)
next
  case (3 g h gs)
  have "no_postfix (TBar # alternatives_tokens (h # gs))" by (simp add: no_postfix_def)
  from parse_glob_tokens [OF this, of g] "3.IH" show ?case by (simp add: foldr_add_item)
qed

lemma re_compile_regex_string:
  assumes "gs \<noteq> []"
  shows "re_compile (regex_string (map (\<lambda>g. concat (map wildcard_char_to_regex g)) gs))
     = Some (map (map glob_item) gs)"
  using assms
  by (simp add: re_compile_def tokenize_regex_string parse_alternatives_tokens)

lemma wildcards_to_regex_ascii:
  assumes "strings \<noteq> []" and "\<forall>p\<in>set strings. is_ascii (glob_table_name p)"
  shows "wildcards_to_regex strings
     = Inr (map (\<lambda>glob. map glob_item (glob_table_name glob)) strings)"
proof -
  have "map glob_table_name strings \<noteq> []" using assms(1) by simp
  from re_compile_regex_string [OF this] map_raising_ascii [OF assms(2)]
  show ?thesis by (simp add: wildcards_to_regex_def comp_def)
qed

lemma wildcards_to_regex_not_ascii:
  assumes "\<exists>p\<in>set strings. \<not> is_ascii (glob_table_name p)"
  shows "wildcards_to_regex strings = Inl UnicodeDecodeError"
  using map_raising_not_ascii [OF assms] by (simp add: wildcards_to_regex_def)

subsection \<open>Matching\<close>

lemma star_rests_Dot:
  "newline \<notin> set s \<Longrightarrow> set (star_rests Dot s) = {drop k s |k. k \<le> length s}"
proof (induction s)
  case Nil
  show ?case by simp
next
  case (Cons c s)
  then have ih: "set (star_rests Dot s) = {drop k s |k. k \<le> length s}" and c: "c \<noteq> newline"
    by auto
  have "{drop k (c # s) |k. k \<le> length (c # s)} = insert (c # s) {drop k s |k. k \<le> length s}"
  proof (intro set_eqI iffI)
    fix r assume "r \<in> {drop k (c # s) |k. k \<le> length (c # s)}"
    then obtain k where k: "r = drop k (c # s)" "k \<le> length (c # s)" by blast
    show "r \<in> insert (c # s) {drop k s |k. k \<le> length s}"
    proof (cases k)
      case 0
      with k show ?thesis by simp
    next
      case (Suc j)
      with k have "r = drop j s" "j \<le> length s" by simp_all
      then show ?thesis by blast
    qed
  next
    fix r assume "r \<in> insert (c # s) {drop k s |k. k \<le> length s}"
    then consider "r = c # s" | k where "r = drop k s" "k \<le> length s" by blast
    then show "r \<in> {drop k (c # s) |k. k \<le> length (c # s)}"
    proof cases
      case 1
      then have "r = drop 0 (c # s)" by simp
      then show ?thesis by blast
    next
      case 2
      then have "r = drop (Suc k) (c # s)" "Suc k \<le> length (c # s)" by simp_all
      then show ?thesis by blast
    qed
  qed
  with ih c show ?case by auto
qed

lemma drop_append_suffix: "k \<le> length p \<Longrightarrow> drop k (p @ r) = drop k p @ r"
  by simp

lemma glob_matches_star:
  "glob_matches (CHR ''*'' # g) p \<longleftrightarrow> (\<exists>k\<le>length p. glob_matches g (drop k p))"
  by (auto simp: list_ex_iff less_Suc_eq_le simp del: upt_Suc)

lemma items_rests_glob:
  "newline \<notin> set s \<Longrightarrow>
   r \<in> set (items_rests (map glob_item g) s) \<longleftrightarrow> (\<exists>p. s = p @ r \<and> glob_matches g p)"
proof (induction g arbitrary: s)
  case Nil
  show ?case by auto
next
  case (Cons c g)
  note ih = Cons.IH
  consider (star) "c = CHR ''*''" | (quest) "c = CHR ''?''" | (lit) "c \<noteq> CHR ''*''" "c \<noteq> CHR ''?''"
    by blast
  then show ?case
  proof cases
    case star
    have nl: "newline \<notin> set (drop k s)" for k
      using Cons.prems by (meson in_set_dropD)
    have "r \<in> set (items_rests (map glob_item (c # g)) s)
        \<longleftrightarrow> (\<exists>k\<le>length s. r \<in> set (items_rests (map glob_item g) (drop k s)))"
      using star star_rests_Dot [OF Cons.prems] by (auto simp: glob_item_def)
    also have "\<dots> \<longleftrightarrow> (\<exists>k\<le>length s. \<exists>q. drop k s = q @ r \<and> glob_matches g q)"
      using ih [OF nl] by simp
    also have "\<dots> \<longleftrightarrow> (\<exists>p. s = p @ r \<and> (\<exists>k\<le>length p. glob_matches g (drop k p)))"
    proof
      assume "\<exists>k\<le>length s. \<exists>q. drop k s = q @ r \<and> glob_matches g q"
      then obtain k q where k: "k \<le> length s" "drop k s = q @ r" "glob_matches g q" by blast
      let ?p = "take k s @ q"
      have "s = ?p @ r" using k(2) by (metis append.assoc append_take_drop_id)
      moreover have "k \<le> length ?p" using k(1) by simp
      moreover have "drop k ?p = q" using k(1) by simp
      ultimately show "\<exists>p. s = p @ r \<and> (\<exists>k\<le>length p. glob_matches g (drop k p))"
        using k(3) by metis
    next
      assume "\<exists>p. s = p @ r \<and> (\<exists>k\<le>length p. glob_matches g (drop k p))"
      then obtain p k where p: "s = p @ r" "k \<le> length p" "glob_matches g (drop k p)" by blast
      then have "k \<le> length s" "drop k s = drop k p @ r" by simp_all
      with p(3) show "\<exists>k\<le>length s. \<exists>q. drop k s = q @ r \<and> glob_matches g q" by blast
    qed
    also have "\<dots> \<longleftrightarrow> (\<exists>p. s = p @ r \<and> glob_matches (c # g) p)"
      using star by (simp only: glob_matches_star)
    finally show ?thesis .
  next
    case quest
    show ?thesis
    proof (cases s)
      case Nil
      with quest ih [of "[]"] show ?thesis by (auto simp: glob_item_def)
    next
      case (Cons x xs)
      with Cons.prems have x: "x \<noteq> newline" "newline \<notin> set xs" by auto
      have "r \<in> set (items_rests (map glob_item (c # g)) s)
          \<longleftrightarrow> r \<in> set (items_rests (map glob_item g) xs) \<or> r \<in> set (items_rests (map glob_item g) s)"
        using quest Cons x by (auto simp: glob_item_def)
      also have "\<dots> \<longleftrightarrow> (\<exists>q. xs = q @ r \<and> glob_matches g q) \<or> (\<exists>p. s = p @ r \<and> glob_matches g p)"
        using ih [OF x(2)] ih [OF Cons.prems] by simp
      also have "\<dots> \<longleftrightarrow> (\<exists>p. s = p @ r \<and> (glob_matches g p \<or> p \<noteq> [] \<and> glob_matches g (tl p)))"
      proof
        assume "(\<exists>q. xs = q @ r \<and> glob_matches g q) \<or> (\<exists>p. s = p @ r \<and> glob_matches g p)"
        then show "\<exists>p. s = p @ r \<and> (glob_matches g p \<or> p \<noteq> [] \<and> glob_matches g (tl p))"
        proof
          assume "\<exists>q. xs = q @ r \<and> glob_matches g q"
          then obtain q where "xs = q @ r" "glob_matches g q" by blast
          then have "s = (x # q) @ r" "x # q \<noteq> []" "glob_matches g (tl (x # q))"
            using Cons by simp_all
          then show ?thesis by blast
        qed blast
      next
        assume "\<exists>p. s = p @ r \<and> (glob_matches g p \<or> p \<noteq> [] \<and> glob_matches g (tl p))"
        then obtain p where p: "s = p @ r" "glob_matches g p \<or> p \<noteq> [] \<and> glob_matches g (tl p)"
          by blast
        from p(2) show "(\<exists>q. xs = q @ r \<and> glob_matches g q) \<or> (\<exists>p. s = p @ r \<and> glob_matches g p)"
        proof
          assume "glob_matches g p"
          with p(1) show ?thesis by blast
        next
          assume a: "p \<noteq> [] \<and> glob_matches g (tl p)"
          then obtain y q where "p = y # q" by (cases p) auto
          with p(1) Cons a have "xs = q @ r" "glob_matches g q" by simp_all
          then show ?thesis by blast
        qed
      qed
      also have "\<dots> \<longleftrightarrow> (\<exists>p. s = p @ r \<and> glob_matches (c # g) p)"
        using quest by simp
      finally show ?thesis .
    qed
  next
    case lit
    show ?thesis
    proof (cases s)
      case Nil
      with lit show ?thesis by (auto simp: glob_item_def)
    next
      case (Cons x xs)
      with Cons.prems have x: "newline \<notin> set xs" by auto
      have "r \<in> set (items_rests (map glob_item (c # g)) s)
          \<longleftrightarrow> x = c \<and> r \<in> set (items_rests (map glob_item g) xs)"
        using lit Cons by (auto simp: glob_item_def)
      also have "\<dots> \<longleftrightarrow> x = c \<and> (\<exists>q. xs = q @ r \<and> glob_matches g q)"
        using ih [OF x] by simp
      also have "\<dots> \<longleftrightarrow> (\<exists>p. s = p @ r \<and> p \<noteq> [] \<and> hd p = c \<and> glob_matches g (tl p))"
      proof
        assume "x = c \<and> (\<exists>q. xs = q @ r \<and> glob_matches g q)"
        then obtain q where "x = c" "xs = q @ r" "glob_matches g q" by blast
        then have "s = (x # q) @ r" "x # q \<noteq> []" "hd (x # q) = c" "glob_matches g (tl (x # q))"
          using Cons by simp_all
        then show "\<exists>p. s = p @ r \<and> p \<noteq> [] \<and> hd p = c \<and> glob_matches g (tl p)" by blast
      next
        assume "\<exists>p. s = p @ r \<and> p \<noteq> [] \<and> hd p = c \<and> glob_matches g (tl p)"
        then obtain p where p: "s = p @ r" "p \<noteq> []" "hd p = c" "glob_matches g (tl p)" by blast
        then obtain y q where "p = y # q" by (cases p) auto
        with p Cons show "x = c \<and> (\<exists>q. xs = q @ r \<and> glob_matches g q)" by auto
      qed
      also have "\<dots> \<longleftrightarrow> (\<exists>p. s = p @ r \<and> glob_matches (c # g) p)"
        using lit by simp
      finally show ?thesis .
    qed
  qed
qed

lemma glob_full_match:
  assumes "newline \<notin> set name"
  shows "list_ex at_end (items_rests (map glob_item g) name) \<longleftrightarrow> glob_matches g name"
proof -
  have "list_ex at_end (items_rests (map glob_item g) name)
      \<longleftrightarrow> (\<exists>r. r \<in> set (items_rests (map glob_item g) name) \<and> at_end r)"
    by (auto simp: list_ex_iff)
  also have "\<dots> \<longleftrightarrow> (\<exists>r p. name = p @ r \<and> glob_matches g p \<and> at_end r)"
    using items_rests_glob [OF assms] by blast
  also have "\<dots> \<longleftrightarrow> glob_matches g name"
  proof
    assume "\<exists>r p. name = p @ r \<and> glob_matches g p \<and> at_end r"
    then obtain r p where rp: "name = p @ r" "glob_matches g p" "at_end r" by blast
    with assms have "r = []" by (auto simp: at_end_def)
    with rp show "glob_matches g name" by simp
  next
    assume "glob_matches g name"
    then have "name = name @ [] \<and> glob_matches g name \<and> at_end []" by (simp add: at_end_def)
    then show "\<exists>r p. name = p @ r \<and> glob_matches g p \<and> at_end r" by blast
  qed
  finally show ?thesis .
qed

lemma re_match_wildcards:
  assumes "newline \<notin> set name"
  shows "re_match (map (\<lambda>glob. map glob_item (glob_table_name glob)) strings) name
     \<longleftrightarrow> (\<exists>p\<in>set strings. glob_matches (glob_table_name p) name)"
  using glob_full_match [OF assms]
  by (simp add: re_match_def list_ex_iff)

text \<open>
  Claim C6, as the code has it. Each glob character is translated on its own: \<open>*\<close> to
  \<open>.*\<close>, \<open>?\<close> to \<open>.?\<close>, any other character to its escaped form, which compiles to that
  literal character. A glob that contains a dot or a slash is first replaced by its base
  name without extension: of the glob, what follows the last slash, and of that, what
  precedes the last dot, unless only dots precede it. The patterns are byte strings: with
  a non-empty list of patterns whose base names are ASCII the selection returns, and a
  table name without a newline character is selected exactly when it is a name of the
  schema and it matches, from its first to its last character and case-sensitively, the
  base name of at least one pattern; when no table name contains a newline, the selection
  is the list of names of the schema filtered by that test. When the base name of a
  pattern holds a byte of 128 or more, the selection raises \<open>UnicodeDecodeError\<close>.
\<close>

theorem wildcard_selection:
  assumes "tables \<noteq> []"
  shows "wildcard_char_to_regex CHR ''*'' = ''.*'' \<and> wildcard_char_to_regex CHR ''?'' = ''.?''
    \<and> (c \<noteq> CHR ''*'' \<and> c \<noteq> CHR ''?'' \<longrightarrow>
         wildcard_char_to_regex c = re_escape [c] \<and> tokenize (re_escape [c]) = Some [TAtom (Lit c)])
    \<and> (\<forall>p. glob_table_name p =
          (if CHR ''.'' \<in> set p \<or> CHR ''/'' \<in> set p then fst (path_splitext (snd (path_split p))) else p))
    \<and> (\<forall>d f. (d = [] \<or> last d = CHR ''/'') \<and> CHR ''/'' \<notin> set f \<longrightarrow> snd (path_split (d @ f)) = f)
    \<and> (\<forall>f. CHR ''/'' \<notin> set f \<and> CHR ''.'' \<notin> set f \<longrightarrow> path_splitext f = (f, []))
    \<and> (\<forall>a e. CHR ''/'' \<notin> set (a @ e) \<and> CHR ''.'' \<notin> set e \<longrightarrow>
          path_splitext (a @ CHR ''.'' # e) =
            (if \<exists>c\<in>set a. c \<noteq> CHR ''.'' then (a, CHR ''.'' # e) else (a @ CHR ''.'' # e, [])))
    \<and> (\<forall>p. CHR ''/'' \<notin> set (snd (path_split p)) \<and> (\<exists>d. p = d @ snd (path_split p)))
    \<and> (\<forall>f. fst (path_splitext f) @ snd (path_splitext f) = f
          \<and> (snd (path_splitext f) = []
              \<or> hd (snd (path_splitext f)) = CHR ''.'' \<and> CHR ''.'' \<notin> set (tl (snd (path_splitext f)))))
    \<and> ((\<forall>p\<in>set tables. is_ascii (glob_table_name p)) \<longrightarrow>
        (\<exists>names. select_table_names metadata tables = Inr names
         \<and> (\<forall>name. newline \<notin> set name \<longrightarrow>
               (name \<in> set names \<longleftrightarrow>
                  name \<in> set (map tbl_name metadata)
                  \<and> (\<exists>p\<in>set tables. glob_matches (glob_table_name p) name)))
         \<and> ((\<forall>t\<in>set metadata. newline \<notin> set (tbl_name t)) \<longrightarrow>
               names = filter (\<lambda>name. \<exists>p\<in>set tables. glob_matches (glob_table_name p) name)
                         (map tbl_name metadata))))
    \<and> ((\<exists>p\<in>set tables. \<not> is_ascii (glob_table_name p)) \<longrightarrow>
        select_table_names metadata tables = Inl UnicodeDecodeError)"
proof -
  let ?rx = "map (\<lambda>glob. map glob_item (glob_table_name glob)) tables"
  let ?names = "filter (re_match ?rx) (map tbl_name metadata)"
  have tr: "wildcard_char_to_regex CHR ''*'' = ''.*''" "wildcard_char_to_regex CHR ''?'' = ''.?''"
    by (simp_all add: wildcard_char_to_regex_def)
  have esc: "wildcard_char_to_regex c = re_escape [c] \<and> tokenize (re_escape [c]) = Some [TAtom (Lit c)]"
    if "c \<noteq> CHR ''*''" "c \<noteq> CHR ''?''"
  proof -
    have w: "wildcard_char_to_regex c = re_escape [c]"
      using that by (simp add: wildcard_char_to_regex_def)
    have "tokenize (wildcard_char_to_regex c @ []) = map_option ((@) (glob_tokens c)) (tokenize [])"
      by (rule tokenize_char)
    then have "tokenize (re_escape [c]) = Some [TAtom (Lit c)]"
      using that by (simp add: w glob_tokens_def)
    with w show ?thesis by simp
  qed
  have base: "glob_table_name p =
          (if CHR ''.'' \<in> set p \<or> CHR ''/'' \<in> set p then fst (path_splitext (snd (path_split p))) else p)"
    for p
    by (simp add: glob_table_name_def Let_def)
  have split: "\<forall>d f. (d = [] \<or> last d = CHR ''/'') \<and> CHR ''/'' \<notin> set f \<longrightarrow> snd (path_split (d @ f)) = f"
    by (simp add: path_split_last)
  have ext0: "\<forall>f. CHR ''/'' \<notin> set f \<and> CHR ''.'' \<notin> set f \<longrightarrow> path_splitext f = (f, [])"
    by (simp add: path_splitext_no_dot)
  have ext1: "\<forall>a e. CHR ''/'' \<notin> set (a @ e) \<and> CHR ''.'' \<notin> set e \<longrightarrow>
          path_splitext (a @ CHR ''.'' # e) =
            (if \<exists>c\<in>set a. c \<noteq> CHR ''.'' then (a, CHR ''.'' # e) else (a @ CHR ''.'' # e, []))"
    using path_splitext_last_dot by blast
  have names: "\<exists>names. select_table_names metadata tables = Inr names
         \<and> (\<forall>name. newline \<notin> set name \<longrightarrow>
               (name \<in> set names \<longleftrightarrow>
                  name \<in> set (map tbl_name metadata)
                  \<and> (\<exists>p\<in>set tables. glob_matches (glob_table_name p) name)))
         \<and> ((\<forall>t\<in>set metadata. newline \<notin> set (tbl_name t)) \<longrightarrow>
               names = filter (\<lambda>name. \<exists>p\<in>set tables. glob_matches (glob_table_name p) name)
                         (map tbl_name metadata))"
    if ascii: "\<forall>p\<in>set tables. is_ascii (glob_table_name p)"
  proof -
    have sel: "select_table_names metadata tables = Inr ?names"
      using assms by (simp add: select_table_names_def wildcards_to_regex_ascii [OF assms ascii])
    have mem: "name \<in> set ?names \<longleftrightarrow>
        name \<in> set (map tbl_name metadata) \<and> (\<exists>p\<in>set tables. glob_matches (glob_table_name p) name)"
      if "newline \<notin> set name" for name
      using re_match_wildcards [OF that, of tables] by auto
    have flt: "?names = filter (\<lambda>name. \<exists>p\<in>set tables. glob_matches (glob_table_name p) name)
                           (map tbl_name metadata)"
      if nl: "\<forall>t\<in>set metadata. newline \<notin> set (tbl_name t)"
    proof (rule filter_cong [OF refl])
      fix name assume "name \<in> set (map tbl_name metadata)"
      with nl have "newline \<notin> set name" by auto
      then show "re_match ?rx name = (\<exists>p\<in>set tables. glob_matches (glob_table_name p) name)"
        by (rule re_match_wildcards)
    qed
    from sel mem flt show ?thesis by blast
  qed
  have err: "select_table_names metadata tables = Inl UnicodeDecodeError"
    if "\<exists>p\<in>set tables. \<not> is_ascii (glob_table_name p)"
    using assms wildcards_to_regex_not_ascii [OF that] by (simp add: select_table_names_def)
  have old: "\<forall>p. CHR ''/'' \<notin> set (snd (path_split p)) \<and> (\<exists>d. p = d @ snd (path_split p))"
    "\<forall>f. fst (path_splitext f) @ snd (path_splitext f) = f
          \<and> (snd (path_splitext f) = []
              \<or> hd (snd (path_splitext f)) = CHR ''.'' \<and> CHR ''.'' \<notin> set (tl (snd (path_splitext f))))"
    using path_split_tail path_splitext_parts by blast+
  have sel: "(\<forall>p\<in>set tables. is_ascii (glob_table_name p)) \<longrightarrow>
        (\<exists>names. select_table_names metadata tables = Inr names
         \<and> (\<forall>name. newline \<notin> set name \<longrightarrow>
               (name \<in> set names \<longleftrightarrow>
                  name \<in> set (map tbl_name metadata)
                  \<and> (\<exists>p\<in>set tables. glob_matches (glob_table_name p) name)))
         \<and> ((\<forall>t\<in>set metadata. newline \<notin> set (tbl_name t)) \<longrightarrow>
               names = filter (\<lambda>name. \<exists>p\<in>set tables. glob_matches (glob_table_name p) name)
                         (map tbl_name metadata)))"
    using names by blast
  have err': "(\<exists>p\<in>set tables. \<not> is_ascii (glob_table_name p)) \<longrightarrow>
        select_table_names metadata tables = Inl UnicodeDecodeError"
    using err by blast
  have trans: "wildcard_char_to_regex CHR ''*'' = ''.*'' \<and> wildcard_char_to_regex CHR ''?'' = ''.?''
    \<and> (c \<noteq> CHR ''*'' \<and> c \<noteq> CHR ''?'' \<longrightarrow>
         wildcard_char_to_regex c = re_escape [c] \<and> tokenize (re_escape [c]) = Some [TAtom (Lit c)])"
    using tr esc by blast
  have paths: "(\<forall>p. glob_table_name p =
          (if CHR ''.'' \<in> set p \<or> CHR ''/'' \<in> set p then fst (path_splitext (snd (path_split p))) else p))"
    using base by blast
  have esc': "c \<noteq> CHR ''*'' \<and> c \<noteq> CHR ''?'' \<longrightarrow>
         wildcard_char_to_regex c = re_escape [c] \<and> tokenize (re_escape [c]) = Some [TAtom (Lit c)]"
    using esc by blast
  show ?thesis
    by (intro conjI; fact tr esc' paths split ext0 ext1 old sel err')
qed

theorem wildcard_selection_witness:
  "select_table_names [family, item, node] [''data/fam*.csv'', ''it?m'']
     = Inr [''family'', ''item'']
   \<and> path_splitext (''fam*'' @ CHR ''.'' # ''csv'') = (''fam*'', CHR ''.'' # ''csv'')
   \<and> snd (path_split (''data/'' @ ''fam*.csv'')) = ''fam*.csv''
   \<and> select_table_names [family] [''fam*'', [CHR 0xE9]] = Inl UnicodeDecodeError"
proof -
  let ?tables = "[''data/fam*.csv'', ''it?m'']"
  let ?metadata = "[family, item, node]"
  have ne: "?tables \<noteq> []" by simp
  have nl: "\<forall>t\<in>set ?metadata. newline \<notin> set (tbl_name t)"
    by (simp add: family_def item_def node_def newline_def)
  have g: "glob_table_name ''data/fam*.csv'' = ''fam*''" "glob_table_name ''it?m'' = ''it?m''"
    by code_simp+
  have a: "\<forall>p\<in>set ?tables. is_ascii (glob_table_name p)"
    by (simp add: g is_ascii_def)
  have m: "glob_matches ''fam*'' ''family''" "\<not> glob_matches ''it?m'' ''family''"
    "\<not> glob_matches ''fam*'' ''item''" "glob_matches ''it?m'' ''item''"
    "\<not> glob_matches ''fam*'' ''node''" "\<not> glob_matches ''it?m'' ''node''"
    by code_simp+
  note t = wildcard_selection [OF ne, where metadata = ?metadata]
  note rest4 = t [THEN conjunct2, THEN conjunct2, THEN conjunct2, THEN conjunct2]
  note split = rest4 [THEN conjunct1]
  note ext = rest4 [THEN conjunct2, THEN conjunct2, THEN conjunct1]
  note sel = rest4 [THEN conjunct2, THEN conjunct2, THEN conjunct2, THEN conjunct2,
      THEN conjunct2, THEN conjunct1]
  from sel a obtain names where
    n: "select_table_names ?metadata ?tables = Inr names"
    and f: "(\<forall>t\<in>set ?metadata. newline \<notin> set (tbl_name t)) \<longrightarrow>
       names = filter (\<lambda>name. \<exists>p\<in>set ?tables. glob_matches (glob_table_name p) name)
                 (map tbl_name ?metadata)"
    by blast
  from f nl have "names = filter (\<lambda>name. \<exists>p\<in>set ?tables. glob_matches (glob_table_name p) name)
                 (map tbl_name ?metadata)"
    by (rule mp)
  then have "names = [''family'', ''item'']"
    by (simp add: g m family_def item_def node_def)
  with n have 1: "select_table_names ?metadata ?tables = Inr [''family'', ''item'']"
    by simp
  have "CHR ''/'' \<notin> set (''fam*'' @ ''csv'') \<and> CHR ''.'' \<notin> set ''csv''" by simp
  with ext [rule_format, of "''fam*''" "''csv''"]
  have 2: "path_splitext (''fam*'' @ CHR ''.'' # ''csv'') = (''fam*'', CHR ''.'' # ''csv'')"
    by simp
  have "(''data/'' = [] \<or> last ''data/'' = CHR ''/'') \<and> CHR ''/'' \<notin> set ''fam*.csv''" by simp
  with split [rule_format, of "''data/''" "''fam*.csv''"]
  have 3: "snd (path_split (''data/'' @ ''fam*.csv'')) = ''fam*.csv''"
    by blast
  let ?bad = "[''fam*'', [CHR 0xE9]]"
  have ne': "?bad \<noteq> []" by simp
  have "glob_table_name [CHR 0xE9] = [CHR 0xE9]"
    by (simp add: glob_table_name_def)
  then have b: "\<exists>p\<in>set ?bad. \<not> is_ascii (glob_table_name p)"
    by (simp add: is_ascii_def)
  note err = wildcard_selection [OF ne', where metadata = "[family]",
      THEN conjunct2, THEN conjunct2, THEN conjunct2, THEN conjunct2, THEN conjunct2,
      THEN conjunct2, THEN conjunct2, THEN conjunct2, THEN conjunct2, THEN conjunct2]
  from err b have 4: "select_table_names [family] ?bad = Inl UnicodeDecodeError"
    by (rule mp)
  from 1 2 3 4 show ?thesis by (intro conjI)
qed

text \<open>
  As stated, for every list of patterns, C6 fails on a pattern with a byte that is not
  ASCII: the table \<open>accent_table\<close> is named by the pattern itself, character for
  character, and it is not selected, since the selection raises.
\<close>

theorem non_ascii_pattern_counterexample:
  "select_table_names [accent_table] [tbl_name accent_table] = Inl UnicodeDecodeError
   \<and> glob_matches (glob_table_name (tbl_name accent_table)) (tbl_name accent_table)"
proof -
  have g: "glob_table_name (tbl_name accent_table) = tbl_name accent_table"
    by (simp add: glob_table_name_def accent_table_def)
  have n: "\<not> is_ascii (tbl_name accent_table)"
    by (simp add: is_ascii_def accent_table_def)
  have "wildcards_to_regex [tbl_name accent_table] = Inl UnicodeDecodeError"
    by (rule wildcards_to_regex_not_ascii) (simp add: g n)
  then have "select_table_names [accent_table] [tbl_name accent_table] = Inl UnicodeDecodeError"
    by (simp add: select_table_names_def)
  moreover have "glob_matches (tbl_name accent_table) (tbl_name accent_table)"
    by (simp add: accent_table_def)
  ultimately show ?thesis by (simp add: g)
qed

text \<open>
  Table names with a newline are left out of the statement of C6. There the compiled
  expression does not behave as a match of the whole name: \<open>$\<close> also matches just before
  a newline that ends the string, so the pattern \<open>abc\<close> selects the name \<open>abc\<close> followed
  by a newline.
\<close>

lemma dollar_before_final_newline:
  "select_table_names [odd_table] [''abc''] = Inr [''abc'' @ [newline]]
   \<and> \<not> glob_matches (glob_table_name ''abc'') (''abc'' @ [newline])"
proof -
  have g: "glob_table_name ''abc'' = ''abc''"
    by (simp add: glob_table_name_def)
  have a: "\<forall>p\<in>set [''abc'']. is_ascii (glob_table_name p)"
    by (simp add: g is_ascii_def)
  have "select_table_names [odd_table] [''abc''] = Inr [''abc'' @ [newline]]"
    using wildcards_to_regex_ascii [OF _ a]
    by (simp add: select_table_names_def g glob_item_def re_match_def at_end_def odd_table_def)
  moreover have "\<not> glob_matches ''abc'' (''abc'' @ [newline])"
    by simp
  ultimately show ?thesis by (simp add: g)
qed

end
